theory Spec2Isabelle
  imports Main "HOL-Library.Sublist"
begin

section \<open>Strings\<close>

text \<open>
  The program is \<^verbatim>\<open>whatsapp_alarm.py\<close>. A Python \<^verbatim>\<open>str\<close> is modelled as a
  \<^typ>\<open>string\<close>, each \<^typ>\<open>char\<close> read as the code point of that number: the model covers
  the strings whose code points lie below 256 (Latin-1). On these code points
  \<^verbatim>\<open>str.isspace\<close>, the regular expression class \<^verbatim>\<open>\s\<close> and \<^verbatim>\<open>str.strip\<close> agree on the
  whitespace characters 9-13, 28-32, 133 and 160, and \<^verbatim>\<open>str.lower\<close> maps A-Z and
  the letters 192-222 (without 215, the multiplication sign) 32 places up.
\<close>

definition isspace :: "char \<Rightarrow> bool" where
  "isspace c =
     (let n = (of_char c :: nat)
      in (9 \<le> n \<and> n \<le> 13) \<or> (28 \<le> n \<and> n \<le> 32) \<or> n = 133 \<or> n = 160)"

definition lower_char :: "char \<Rightarrow> char" where
  "lower_char c =
     (let n = (of_char c :: nat)
      in if (65 \<le> n \<and> n \<le> 90) \<or> (192 \<le> n \<and> n \<le> 222 \<and> n \<noteq> 215)
         then char_of (n + 32) else c)"

text \<open>\<^verbatim>\<open>s.lower()\<close>\<close>

definition lower :: "string \<Rightarrow> string" where
  "lower s = map lower_char s"

text \<open>\<^verbatim>\<open>s.strip()\<close>: leading and trailing whitespace removed.\<close>

definition strip :: "string \<Rightarrow> string" where
  "strip s = dropWhile isspace (rev (dropWhile isspace (rev s)))"

text \<open>
  \<^verbatim>\<open>re.sub(r"\s+", " ", text)\<close>: scanning from the left, every maximal run of
  whitespace characters is replaced by one space.
\<close>

function sub_ws :: "string \<Rightarrow> string" where
  "sub_ws [] = []"
| "sub_ws (c # cs) =
     (if isspace c then CHR '' '' # sub_ws (dropWhile isspace cs) else c # sub_ws cs)"
  by pat_completeness auto
termination
  by (relation "measure length") (auto simp: length_dropWhile_le less_Suc_eq_le)

text \<open>
  \<^verbatim>\<open>
  def normalize(text: str) -> str:
      return re.sub(r"\s+", " ", text).strip().lower()
  \<close>
\<close>

definition normalize_text :: "string \<Rightarrow> string" where
  "normalize_text text = lower (strip (sub_ws text))"

text \<open>
  Shape of a normalized string, used to state what \<open>normalize_text\<close> returns:
  \<open>collapsed\<close> says that every whitespace character is a blank that is followed by a
  non-whitespace character or by nothing; \<open>trimmed\<close> says that the string neither
  starts nor ends with whitespace.
\<close>

fun collapsed :: "string \<Rightarrow> bool" where
  "collapsed [] = True"
| "collapsed (c # cs) =
     ((isspace c \<longrightarrow> c = CHR '' '' \<and> (case cs of [] \<Rightarrow> True | d # _ \<Rightarrow> \<not> isspace d))
      \<and> collapsed cs)"

definition trimmed :: "string \<Rightarrow> bool" where
  "trimmed s = (s = [] \<or> (\<not> isspace (hd s) \<and> \<not> isspace (last s)))"

section \<open>Keyword matcher\<close>

text \<open>
  Python's \<^verbatim>\<open>a in b\<close> on strings: \<open>a\<close> occurs in \<open>b\<close> as a contiguous substring,
  found by trying each position of \<open>b\<close> from the left.
\<close>

fun str_in :: "string \<Rightarrow> string \<Rightarrow> bool" where
  "str_in a [] = (a = [])"
| "str_in a (c # cs) = (prefix a (c # cs) \<or> str_in a cs)"

text \<open>
  \<^verbatim>\<open>
  def keyword_hit(text: str, keywords: List[str]) -> Optional[str]:
      t = normalize(text)
      for kw in keywords:
          if normalize(kw) in t:
              return kw
      return None
  \<close>
\<close>

fun keyword_hit :: "string \<Rightarrow> string list \<Rightarrow> string option" where
  "keyword_hit text [] = None"
| "keyword_hit text (kw # keywords) =
     (if str_in (normalize_text kw) (normalize_text text) then Some kw
      else keyword_hit text keywords)"

section \<open>Driver outcomes\<close>

text \<open>
  The browser driver is outside the program. Each call into it either returns or raises;
  the model takes the outcome of every call as an input. The exceptions are the
  subclasses of Python's \<^verbatim>\<open>Exception\<close> that the source distinguishes: the two selenium
  exceptions it names, any other exception of a driver call, and the \<^verbatim>\<open>RuntimeError\<close>
  that \<^verbatim>\<open>open_group_chat\<close> raises itself. An interrupt from the keyboard is not an
  outcome of a driver call and is not modelled.
\<close>

datatype exn =
    TimeoutException
  | StaleElementReferenceException
  | OtherException
  | RuntimeError

text \<open>
  What the session does that can be observed, in order. The three events of a message
  carry the message id, which is not part of the printed text, so that the trace can be
  related to the set of seen ids. Progress lines (\<^verbatim>\<open>[INFO]\<close>, \<^verbatim>\<open>[DEBUG]\<close>, \<^verbatim>\<open>[PROBE]\<close>) are left
  out of the trace. A call of \<^verbatim>\<open>play_alarm\<close> is one event and is taken to return; the
  timestamp of a message line is not part of its event. Pauses are in milliseconds, the
  pause of \<^verbatim>\<open>cfg.poll_seconds\<close> is an event of its own.
\<close>

datatype event =
    Print_Message string string string
  | Print_Keyword string string
  | Play_Alarm string
  | Print_Warn nat exn
  | Print_Error exn
  | Sleep_ms nat
  | Sleep_poll
  | Driver_Quit

text \<open>
  A straight-line piece of code is a list of steps: a driver call with its outcome, or a
  \<^verbatim>\<open>time.sleep\<close>. Running it yields the pauses taken and the first exception raised, after
  which nothing more of the list runs.
\<close>

datatype step = Call "exn option" | Pause nat

fun run_steps :: "step list \<Rightarrow> event list \<times> exn option" where
  "run_steps [] = ([], None)"
| "run_steps (Pause n # ss) = (case run_steps ss of (ev, r) \<Rightarrow> (Sleep_ms n # ev, r))"
| "run_steps (Call None # ss) = run_steps ss"
| "run_steps (Call (Some e) # ss) = ([], Some e)"

section \<open>Message identity and snapshot reader\<close>

text \<open>
  \<^verbatim>\<open>s.split(sep, 1)\<close>: the parts before and after the leftmost occurrence of \<open>sep\<close>, or
  the string alone when \<open>sep\<close> does not occur. The separator is a non-empty literal at
  both call sites.
\<close>

fun split_once :: "string \<Rightarrow> string \<Rightarrow> string list" where
  "split_once sep [] = [[]]"
| "split_once sep (c # cs) =
     (if prefix sep (c # cs) then [[], drop (length sep) (c # cs)]
      else (case split_once sep cs of
              [] \<Rightarrow> [[c]]
            | p # ps \<Rightarrow> (c # p) # ps))"

text \<open>
  Lines 191-195 of \<^verbatim>\<open>get_messages\<close>:
  \<^verbatim>\<open>
  sender = "Unknown"
  if "] " in meta:
      after = meta.split("] ", 1)[-1]
      if ": " in after:
          sender = after.split(": ", 1)[0].strip()
  \<close>
\<close>

definition sender_of :: "string \<Rightarrow> string" where
  "sender_of meta =
     (if str_in ''] '' meta then
        (let after = last (split_once ''] '' meta)
         in if str_in '': '' after then strip (hd (split_once '': '' after))
            else ''Unknown'')
      else ''Unknown'')"

text \<open>
  A message element of the page, as the two reads of the loop body see it:
  \<^verbatim>\<open>b.get_attribute("data-pre-plain-text")\<close> and \<^verbatim>\<open>b.text\<close>, each raising or returning
  a string or \<^verbatim>\<open>None\<close>.
\<close>

record block =
  attr_read :: "exn + string option"
  text_read :: "exn + string option"

text \<open>\<^verbatim>\<open>x or ""\<close>\<close>

definition or_empty :: "string option \<Rightarrow> string" where
  "or_empty x = (case x of None \<Rightarrow> [] | Some s \<Rightarrow> s)"

type_synonym message = "string \<times> string \<times> string"

text \<open>
  The body of the \<^verbatim>\<open>try\<close> in \<^verbatim>\<open>get_messages\<close> for one element: an exception raised by a
  read, \<^verbatim>\<open>continue\<close> on empty text (\<open>Inr None\<close>), or the triple that is appended.
\<close>

definition read_block :: "block \<Rightarrow> exn + message option" where
  "read_block b =
     (case attr_read b of
        Inl e \<Rightarrow> Inl e
      | Inr a \<Rightarrow>
          (let meta = strip (or_empty a);
               sender = sender_of meta
           in case text_read b of
                Inl e \<Rightarrow> Inl e
              | Inr t \<Rightarrow>
                  (let text = strip (or_empty t)
                   in if text = [] then Inr None
                      else Inr (Some (meta @ ''|'' @ text, sender, text)))))"

text \<open>
  The loop over the elements: \<^verbatim>\<open>except Exception: continue\<close> skips an element whose read
  raised.
\<close>

fun get_messages_loop :: "block list \<Rightarrow> message list \<Rightarrow> message list" where
  "get_messages_loop [] results = results"
| "get_messages_loop (b # blocks) results =
     (case read_block b of
        Inl e \<Rightarrow> get_messages_loop blocks results
      | Inr None \<Rightarrow> get_messages_loop blocks results
      | Inr (Some m) \<Rightarrow> get_messages_loop blocks (results @ [m]))"

text \<open>
  \<^verbatim>\<open>get_messages(driver)\<close>; the argument is the outcome of \<^verbatim>\<open>driver.find_elements\<close>, which
  is called outside the \<^verbatim>\<open>try\<close>, so its exception leaves the function.
\<close>

definition get_messages :: "exn + block list \<Rightarrow> exn + message list" where
  "get_messages found =
     (case found of
        Inl e \<Rightarrow> Inl e
      | Inr blocks \<Rightarrow> Inr (get_messages_loop blocks []))"

section \<open>Conversation locator\<close>

text \<open>The outcomes of the driver calls of one attempt of \<^verbatim>\<open>open_group_chat\<close>, in source order.\<close>

record attempt =
  search_primary :: "exn option"
  search_fallback :: "exn option"
  search_click :: "exn option"
  keys_select_all :: "exn option"
  keys_backspace :: "exn option"
  keys_group_name :: "exn option"
  chat_present :: "exn option"
  chat_clickable :: "exn option"
  chat_click :: "exn option"
  composer_present :: "exn option"

text \<open>
  The inner \<^verbatim>\<open>try\<close>: the second selector is waited for only when the wait for the first
  one raised \<^verbatim>\<open>TimeoutException\<close>.
\<close>

definition locate_search :: "attempt \<Rightarrow> exn option" where
  "locate_search a =
     (case search_primary a of
        Some TimeoutException \<Rightarrow> search_fallback a
      | r \<Rightarrow> r)"

definition attempt_steps :: "attempt \<Rightarrow> step list" where
  "attempt_steps a =
     [Call (locate_search a), Call (search_click a), Pause 200,
      Call (keys_select_all a), Call (keys_backspace a), Call (keys_group_name a),
      Pause 1000,
      Call (chat_present a), Call (chat_clickable a), Call (chat_click a),
      Call (composer_present a)]"

definition attempt_result :: "attempt \<Rightarrow> event list \<times> exn option" where
  "attempt_result a = run_steps (attempt_steps a)"

text \<open>
  The \<^verbatim>\<open>for attempt in range(1, 6)\<close> loop, over the attempt numbers still to try:
  \<^verbatim>\<open>return\<close> on the first attempt that runs through, a warning and a pause of 0.6 s
  (stale element) or 0.8 s (any other exception) after a failed one, and the
  \<^verbatim>\<open>RuntimeError\<close> after the loop.
\<close>

fun open_loop :: "(nat \<Rightarrow> attempt) \<Rightarrow> nat list \<Rightarrow> event list \<times> (exn + nat)" where
  "open_loop env [] = ([], Inl RuntimeError)"
| "open_loop env (k # ks) =
     (case attempt_result (env k) of
        (ev, None) \<Rightarrow> (ev, Inr k)
      | (ev, Some StaleElementReferenceException) \<Rightarrow>
          (case open_loop env ks of
             (ev', r) \<Rightarrow> (ev @ [Print_Warn k StaleElementReferenceException, Sleep_ms 600] @ ev', r))
      | (ev, Some e) \<Rightarrow>
          (case open_loop env ks of
             (ev', r) \<Rightarrow> (ev @ [Print_Warn k e, Sleep_ms 800] @ ev', r)))"

definition open_group_chat :: "(nat \<Rightarrow> attempt) \<Rightarrow> event list \<times> (exn + nat)" where
  "open_group_chat env = open_loop env [1..<6]"

text \<open>The pauses after failed attempts, among the events of the locator.\<close>

definition retry_pauses :: "event list \<Rightarrow> event list" where
  "retry_pauses evs = filter (\<lambda>e. e = Sleep_ms 600 \<or> e = Sleep_ms 800) evs"

section \<open>Monitoring loop\<close>

text \<open>
  The fields of \<^verbatim>\<open>Config\<close> that reach the functions modelled here (the alarm parameters
  and the poll interval do not), and the state of the loop: the set \<^verbatim>\<open>seen_ids\<close> and the
  trace of what the session did so far.
\<close>

record config =
  group_name :: string
  cfg_keywords :: "string list"

record state =
  seen_ids :: "string set"
  trace :: "event list"

text \<open>
  \<^verbatim>\<open>
  def scroll_chat_to_bottom(driver):
      try:
          box = driver.find_element(...)
          box.click()
          time.sleep(0.05)
          box.send_keys(Keys.END)
          box.send_keys(Keys.CONTROL, Keys.END)
      except Exception:
          pass
  \<close>
\<close>

record scroll =
  find_box :: "exn option"
  click_box :: "exn option"
  key_end :: "exn option"
  key_ctrl_end :: "exn option"

definition scroll_chat_to_bottom :: "scroll \<Rightarrow> event list" where
  "scroll_chat_to_bottom h =
     fst (run_steps [Call (find_box h), Call (click_box h), Pause 50,
                     Call (key_end h), Call (key_ctrl_end h)])"

text \<open>
  Lines 271-277, for one new message; \<^verbatim>\<open>if hit:\<close> is false for \<^verbatim>\<open>None\<close> and for the
  empty string.
\<close>

definition alert_item :: "config \<Rightarrow> message \<Rightarrow> event list" where
  "alert_item cfg m =
     (case m of (msg_id, sender, text) \<Rightarrow>
        Print_Message msg_id sender text #
        (case keyword_hit text (cfg_keywords cfg) of
           None \<Rightarrow> []
         | Some hit \<Rightarrow>
             if hit = [] then [] else [Print_Keyword msg_id hit, Play_Alarm msg_id]))"

text \<open>The \<^verbatim>\<open>for msg_id, sender, text in new_items\<close> loop.\<close>

fun process_new :: "config \<Rightarrow> message list \<Rightarrow> state \<Rightarrow> state" where
  "process_new cfg [] s = s"
| "process_new cfg (m # ms) s =
     process_new cfg ms
       (s\<lparr>seen_ids := insert (fst m) (seen_ids s), trace := trace s @ alert_item cfg m\<rparr>)"

text \<open>\<^verbatim>\<open>[(mid, s, t) for (mid, s, t) in msgs if mid not in seen_ids]\<close>\<close>

definition new_items :: "string set \<Rightarrow> message list \<Rightarrow> message list" where
  "new_items seen msgs = filter (\<lambda>(mid, s, t). mid \<notin> seen) msgs"

text \<open>One poll cycle as the driver presents it: the scroll hint and the enumeration.\<close>

record cycle =
  hint :: scroll
  found :: "exn + block list"

text \<open>
  The \<^verbatim>\<open>while True\<close> loop, run on the cycles supplied. The result \<open>None\<close> says that every
  supplied cycle was completed and the loop is still running; \<open>Some e\<close> says that \<open>e\<close>
  left the loop, the cycles after it never run.
\<close>

fun poll_loop :: "config \<Rightarrow> cycle list \<Rightarrow> state \<Rightarrow> exn option \<times> state" where
  "poll_loop cfg [] s = (None, s)"
| "poll_loop cfg (c # cs) s =
     (let s1 = s\<lparr>trace := trace s @ scroll_chat_to_bottom (hint c)\<rparr>
      in case get_messages (found c) of
           Inl e \<Rightarrow> (Some e, s1)
         | Inr msgs \<Rightarrow>
             (let s2 = process_new cfg (new_items (seen_ids s1) msgs) s1;
                  s3 = s2\<lparr>trace := trace s2 @ [Sleep_poll]\<rparr>
              in poll_loop cfg cs s3))"

text \<open>\<^verbatim>\<open>for msg_id, _, _ in msgs: seen_ids.add(msg_id)\<close>\<close>

fun seed :: "message list \<Rightarrow> string set \<Rightarrow> string set" where
  "seed [] seen = seen"
| "seed (m # ms) seen = seed ms (insert (fst m) seen)"

text \<open>
  Lines 245-279 of \<^verbatim>\<open>main\<close>: the first seeding pass, the reset of \<^verbatim>\<open>seen_ids\<close>, the second
  seeding pass and the loop. \<open>tr\<close> is the trace so far.
\<close>

definition monitor ::
  "config \<Rightarrow> event list \<Rightarrow> exn + block list \<Rightarrow> exn + block list \<Rightarrow> cycle list
   \<Rightarrow> exn option \<times> state" where
  "monitor cfg tr first second cs =
     (case get_messages first of
        Inl e \<Rightarrow> (Some e, \<lparr>seen_ids = {}, trace = tr\<rparr>)
      | Inr msgs1 \<Rightarrow>
          (let seen1 = seed msgs1 {};
               seen0 = {}
           in case get_messages second of
                Inl e \<Rightarrow> (Some e, \<lparr>seen_ids = seen0, trace = tr\<rparr>)
              | Inr msgs2 \<Rightarrow> poll_loop cfg cs \<lparr>seen_ids = seed msgs2 seen0, trace = tr\<rparr>))"

text \<open>
  What the driver does during one run of \<^verbatim>\<open>main\<close>, after the driver is built: the outcome
  of \<^verbatim>\<open>wait_for_whatsapp_ready\<close>, the outcomes of the attempts of \<^verbatim>\<open>open_group_chat\<close> by
  attempt number, the outcome of \<^verbatim>\<open>probe_dom\<close>, the enumerations of the two seeding passes
  and the poll cycles.
\<close>

record world =
  ready :: "exn option"
  attempts :: "nat \<Rightarrow> attempt"
  probe :: "exn option"
  seed_first :: "exn + block list"
  seed_second :: "exn + block list"
  cycles :: "cycle list"

text \<open>The \<^verbatim>\<open>try\<close> block of \<^verbatim>\<open>main\<close>.\<close>

definition main_body :: "config \<Rightarrow> world \<Rightarrow> exn option \<times> state" where
  "main_body cfg w =
     (case ready w of
        Some e \<Rightarrow> (Some e, \<lparr>seen_ids = {}, trace = []\<rparr>)
      | None \<Rightarrow>
          (case open_group_chat (attempts w) of
             (ev, Inl e) \<Rightarrow> (Some e, \<lparr>seen_ids = {}, trace = Sleep_ms 1500 # ev\<rparr>)
           | (ev, Inr k) \<Rightarrow>
               (case probe w of
                  Some e \<Rightarrow> (Some e, \<lparr>seen_ids = {}, trace = Sleep_ms 1500 # ev\<rparr>)
                | None \<Rightarrow>
                    monitor cfg (Sleep_ms 1500 # ev) (seed_first w) (seed_second w) (cycles w))))"

text \<open>
  \<^verbatim>\<open>main\<close> with its handlers: \<^verbatim>\<open>except Exception\<close> prints the error, \<^verbatim>\<open>finally\<close> quits the
  driver. \<open>Polling\<close>: the loop is still running after the supplied cycles.
\<close>

datatype session = Polling | Stopped

definition main :: "config \<Rightarrow> world \<Rightarrow> session \<times> state" where
  "main cfg w =
     (case main_body cfg w of
        (None, s) \<Rightarrow> (Polling, s)
      | (Some e, s) \<Rightarrow> (Stopped, s\<lparr>trace := trace s @ [Print_Error e, Driver_Quit]\<rparr>))"

text \<open>
  The seed-once startup in the words of section 4.6 of the specification (\<open>SEEDED\<close>: take
  one Snapshot Reader read; every id observed is added to SeenSet without alerting),
  followed by polling. It is the second definition of a comparison: the duplicated seeding
  of \<open>monitor\<close>, which is the source, is shown to agree with it.
\<close>

definition monitor_seed_once ::
  "config \<Rightarrow> event list \<Rightarrow> exn + block list \<Rightarrow> cycle list \<Rightarrow> exn option \<times> state" where
  "monitor_seed_once cfg tr snapshot cs =
     (case get_messages snapshot of
        Inl e \<Rightarrow> (Some e, \<lparr>seen_ids = {}, trace = tr\<rparr>)
      | Inr msgs \<Rightarrow> poll_loop cfg cs \<lparr>seen_ids = fst ` set msgs, trace = tr\<rparr>)"

text \<open>The ids of the messages printed and of the alarms played, in the order of a trace.\<close>

fun printed_ids :: "event list \<Rightarrow> string list" where
  "printed_ids [] = []"
| "printed_ids (Print_Message i sender text # evs) = i # printed_ids evs"
| "printed_ids (e # evs) = printed_ids evs"

fun alarmed_ids :: "event list \<Rightarrow> string list" where
  "alarmed_ids [] = []"
| "alarmed_ids (Play_Alarm i # evs) = i # alarmed_ids evs"
| "alarmed_ids (e # evs) = alarmed_ids evs"

text \<open>A log line: a warning or an error.\<close>

fun is_log :: "event \<Rightarrow> bool" where
  "is_log (Print_Warn k e) = True"
| "is_log (Print_Error e) = True"
| "is_log e = False"

text \<open>
  Sample driver behaviour for the concrete instances below: an attempt in which every
  driver call returns, and a scroll hint in which every call returns.
\<close>

definition ok_attempt :: attempt where
  "ok_attempt =
     \<lparr>search_primary = None, search_fallback = None, search_click = None,
      keys_select_all = None, keys_backspace = None, keys_group_name = None,
      chat_present = None, chat_clickable = None, chat_click = None,
      composer_present = None\<rparr>"

definition ok_scroll :: scroll where
  "ok_scroll = \<lparr>find_box = None, click_box = None, key_end = None, key_ctrl_end = None\<rparr>"

text \<open>The events added to the trace between two states of one session.\<close>

definition emitted :: "state \<Rightarrow> state \<Rightarrow> event list" where
  "emitted s s' = drop (length (trace s)) (trace s')"

text \<open>
  Sample data for the concrete instances below: the configuration of the end-to-end
  scenario of the specification, an element whose two reads return, and the state before
  anything was seen.
\<close>

definition sample_cfg :: config where
  "sample_cfg = \<lparr>group_name = ''Family'', cfg_keywords = [''urgent'']\<rparr>"

definition element :: "string \<Rightarrow> string \<Rightarrow> block" where
  "element meta body = \<lparr>attr_read = Inr (Some meta), text_read = Inr (Some body)\<rparr>"

definition start_state :: state where
  "start_state = \<lparr>seen_ids = {}, trace = []\<rparr>"

section \<open>Properties of the text normalizer\<close>

lemma isspace_lower_char: "isspace (lower_char c) = isspace c"
  by (auto simp: isspace_def lower_char_def Let_def of_char_of)

lemma lower_char_idem: "lower_char (lower_char c) = lower_char c"
  by (auto simp: lower_char_def Let_def of_char_of)

lemma lower_char_blank: "isspace c \<Longrightarrow> lower_char c = c"
  by (auto simp: isspace_def lower_char_def Let_def)

lemma dropWhile_head: "dropWhile P xs = y # ys \<Longrightarrow> \<not> P y"
  by (metis hd_dropWhile list.sel(1) list.distinct(1))

lemma collapsed_sub_ws: "collapsed (sub_ws s)"
proof (induction s rule: sub_ws.induct)
  case 1
  show ?case by simp
next
  case (2 c cs)
  show ?case
  proof (cases "isspace c")
    case True
    have "case sub_ws (dropWhile isspace cs) of [] \<Rightarrow> True | d # _ \<Rightarrow> \<not> isspace d"
    proof (cases "dropWhile isspace cs")
      case Nil
      show ?thesis unfolding Nil by simp
    next
      case (Cons y ys)
      then have "\<not> isspace y" by (rule dropWhile_head)
      with Cons show ?thesis by simp
    qed
    with True 2 show ?thesis by simp
  next
    case False
    with 2 show ?thesis by simp
  qed
qed

lemma sub_ws_collapsed: "collapsed s \<Longrightarrow> sub_ws s = s"
proof (induction s rule: sub_ws.induct)
  case 1
  show ?case by simp
next
  case (2 c cs)
  show ?case
  proof (cases "isspace c")
    case True
    with 2(3) have c: "c = CHR '' ''" and cs: "collapsed cs"
      and hd: "case cs of [] \<Rightarrow> True | d # _ \<Rightarrow> \<not> isspace d"
      by simp_all
    from hd have "dropWhile isspace cs = cs" by (cases cs) simp_all
    with 2(1) True c cs show ?thesis by simp
  next
    case False
    with 2 show ?thesis by simp
  qed
qed

lemma collapsed_append: "collapsed (xs @ ys) \<Longrightarrow> collapsed xs \<and> collapsed ys"
proof (induction xs)
  case Nil
  then show ?case by simp
next
  case (Cons x xs)
  then show ?case by (cases xs) (auto split: list.splits)
qed

lemma collapsed_dropWhile: "collapsed t \<Longrightarrow> collapsed (dropWhile isspace t)"
proof -
  assume "collapsed t"
  then have "collapsed (takeWhile isspace t @ dropWhile isspace t)" by simp
  then show ?thesis by (rule collapsed_append [THEN conjunct2])
qed

lemma collapsed_strip: "collapsed s \<Longrightarrow> collapsed (strip s)"
proof -
  assume a: "collapsed s"
  have "rev (rev s) = rev (takeWhile isspace (rev s) @ dropWhile isspace (rev s))"
    by (simp only: takeWhile_dropWhile_id)
  then have "s = rev (dropWhile isspace (rev s)) @ rev (takeWhile isspace (rev s))"
    by (simp only: rev_append rev_rev_ident)
  with a have "collapsed (rev (dropWhile isspace (rev s)) @ rev (takeWhile isspace (rev s)))"
    by simp
  then have "collapsed (rev (dropWhile isspace (rev s)))"
    by (rule collapsed_append [THEN conjunct1])
  then show ?thesis unfolding strip_def by (rule collapsed_dropWhile)
qed

lemma collapsed_lower: "collapsed s \<Longrightarrow> collapsed (lower s)"
proof (induction s)
  case Nil
  then show ?case by (simp add: lower_def)
next
  case (Cons c cs)
  then show ?case
    by (cases cs) (auto simp: lower_def isspace_lower_char lower_char_blank)
qed

lemma strip_lower: "strip (lower s) = lower (strip s)"
  by (simp add: strip_def lower_def rev_map dropWhile_map comp_def isspace_lower_char)

lemma lower_lower: "lower (lower s) = lower s"
  by (simp add: lower_def lower_char_idem)

lemma trimmed_strip: "trimmed (strip s)"
proof (cases "strip s = []")
  case True
  then show ?thesis by (simp add: trimmed_def)
next
  case False
  let ?u = "dropWhile isspace (rev s)"
  from False have ne: "dropWhile isspace (rev ?u) \<noteq> []" by (simp add: strip_def)
  have u: "?u \<noteq> []"
  proof
    assume e: "?u = []"
    have "dropWhile isspace (rev ?u) = []" unfolding e by simp
    with ne show False by (rule notE)
  qed
  have "\<not> isspace (hd (dropWhile isspace (rev ?u)))"
    using ne by (rule hd_dropWhile)
  moreover have "last (dropWhile isspace (rev ?u)) = last (rev ?u)"
    using ne by (metis last_appendR takeWhile_dropWhile_id)
  moreover have "last (rev ?u) = hd ?u" using u by (simp add: last_rev)
  moreover have "\<not> isspace (hd ?u)" using u by (rule hd_dropWhile)
  ultimately show ?thesis by (simp add: trimmed_def strip_def)
qed

lemma strip_trimmed: "trimmed s \<Longrightarrow> strip s = s"
proof (cases s)
  case Nil
  then show ?thesis by (simp add: strip_def)
next
  case (Cons c cs)
  assume "trimmed s"
  with Cons have h: "\<not> isspace (hd s)" and l: "\<not> isspace (last s)"
    by (simp_all add: trimmed_def)
  from Cons have ne: "s \<noteq> []" by simp
  from ne l have "dropWhile isspace (rev s) = rev s"
    by (cases "rev s") (simp_all add: last_rev [symmetric] hd_rev)
  moreover from ne h have "dropWhile isspace s = s" by (cases s) simp_all
  ultimately show ?thesis by (simp add: strip_def)
qed

lemma trimmed_lower: "trimmed s \<Longrightarrow> trimmed (lower s)"
  by (cases s) (auto simp: trimmed_def lower_def hd_map last_map isspace_lower_char)

lemma lower_fixed: "c \<in> set (lower s) \<Longrightarrow> lower_char c = c"
  by (auto simp: lower_def lower_char_idem)

lemma normalize_text_idem: "normalize_text (normalize_text s) = normalize_text s"
proof -
  let ?t = "normalize_text s"
  have c: "collapsed ?t"
    unfolding normalize_text_def by (intro collapsed_lower collapsed_strip collapsed_sub_ws)
  have t: "trimmed ?t"
    unfolding normalize_text_def by (intro trimmed_lower trimmed_strip)
  have "normalize_text ?t = lower (strip ?t)"
    using c by (simp add: normalize_text_def [of ?t] sub_ws_collapsed)
  also have "\<dots> = lower ?t" using t by (simp add: strip_trimmed)
  also have "\<dots> = ?t" by (simp add: normalize_text_def lower_lower)
  finally show ?thesis .
qed

lemma isspace_blank: "isspace (CHR '' '')"
  by (simp add: isspace_def)

lemma filter_dropWhile_isspace:
  "filter (\<lambda>c. \<not> isspace c) (dropWhile isspace s) = filter (\<lambda>c. \<not> isspace c) s"
  by (induction s) simp_all

lemma filter_sub_ws:
  "filter (\<lambda>c. \<not> isspace c) (sub_ws s) = filter (\<lambda>c. \<not> isspace c) s"
proof (induction s rule: sub_ws.induct)
  case 1
  show ?case by simp
next
  case (2 c cs)
  then show ?case by (simp add: filter_dropWhile_isspace isspace_blank)
qed

lemma filter_strip: "filter (\<lambda>c. \<not> isspace c) (strip s) = filter (\<lambda>c. \<not> isspace c) s"
proof -
  have "rev (filter (\<lambda>c. \<not> isspace c) (rev (dropWhile isspace (rev s))))
        = rev (filter (\<lambda>c. \<not> isspace c) s)"
    by (simp only: rev_filter [symmetric] rev_rev_ident filter_dropWhile_isspace)
  then show ?thesis by (simp add: strip_def filter_dropWhile_isspace)
qed

lemma filter_lower: "filter (\<lambda>c. \<not> isspace c) (lower s) = lower (filter (\<lambda>c. \<not> isspace c) s)"
  by (simp add: lower_def filter_map comp_def isspace_lower_char)

text \<open>
  C5. The text normalizer is a total function whose result has every run of whitespace
  collapsed to one blank, no whitespace at either end and no upper-case letter, and which
  keeps the non-whitespace characters of its argument in order, lower-cased. It is
  idempotent, and it maps \<^verbatim>\<open>"  Alert   NOW "\<close> to \<^verbatim>\<open>"alert now"\<close>.
\<close>

theorem normalize_text_idempotent:
  "normalize_text (normalize_text s) = normalize_text s
   \<and> normalize_text ''  Alert   NOW '' = ''alert now''
   \<and> collapsed (normalize_text s)
   \<and> trimmed (normalize_text s)
   \<and> (\<forall>c \<in> set (normalize_text s). lower_char c = c)
   \<and> filter (\<lambda>c. \<not> isspace c) (normalize_text s) = lower (filter (\<lambda>c. \<not> isspace c) s)"
proof -
  have ex: "normalize_text ''  Alert   NOW '' = ''alert now''"
    by (simp add: normalize_text_def lower_def strip_def isspace_def lower_char_def char_of_eq_iff)
  have c: "collapsed (normalize_text s)"
    unfolding normalize_text_def by (intro collapsed_lower collapsed_strip collapsed_sub_ws)
  have t: "trimmed (normalize_text s)"
    unfolding normalize_text_def by (intro trimmed_lower trimmed_strip)
  have l: "\<forall>c \<in> set (normalize_text s). lower_char c = c"
    unfolding normalize_text_def by (blast intro: lower_fixed)
  have f: "filter (\<lambda>c. \<not> isspace c) (normalize_text s) = lower (filter (\<lambda>c. \<not> isspace c) s)"
    by (simp add: normalize_text_def filter_lower filter_strip filter_sub_ws)
  from normalize_text_idem ex c t l f show ?thesis by blast
qed

theorem normalize_text_idempotent_witness:
  "normalize_text (normalize_text '' Ab  c '') = ''ab c''
   \<and> collapsed ''ab c'' \<and> trimmed ''ab c''
   \<and> lower_char CHR ''a'' = CHR ''a'' \<and> lower_char CHR '' '' = CHR '' ''
   \<and> filter (\<lambda>c. \<not> isspace c) ''ab c'' = lower ''Abc''"
proof -
  have n: "normalize_text '' Ab  c '' = ''ab c''"
    by (simp add: normalize_text_def lower_def strip_def isspace_def lower_char_def char_of_eq_iff)
  show ?thesis
    using normalize_text_idempotent [of "'' Ab  c ''"] unfolding n
    by (simp add: isspace_def)
qed

section \<open>Properties of the keyword matcher\<close>

lemmas normalize_eval =
  normalize_text_def lower_def strip_def isspace_def lower_char_def char_of_eq_iff

lemma str_in_sublist: "str_in a b = sublist a b"
  by (induction b) (simp_all add: sublist_Cons_right)

lemma keyword_hit_append:
  "keyword_hit text (xs @ ys) =
     (case keyword_hit text xs of Some k \<Rightarrow> Some k | None \<Rightarrow> keyword_hit text ys)"
  by (induction xs) simp_all

lemma keyword_hit_None:
  "keyword_hit text kws = None \<longleftrightarrow>
     (\<forall>kw \<in> set kws. \<not> sublist (normalize_text kw) (normalize_text text))"
  by (induction kws) (simp_all add: str_in_sublist)

lemma keyword_hit_Some:
  "keyword_hit text kws = Some kw \<Longrightarrow>
     \<exists>i < length kws. kws ! i = kw \<and> sublist (normalize_text kw) (normalize_text text)
        \<and> (\<forall>j < i. \<not> sublist (normalize_text (kws ! j)) (normalize_text text))"
proof (induction kws)
  case Nil
  then show ?case by simp
next
  case (Cons k kws)
  show ?case
  proof (cases "sublist (normalize_text k) (normalize_text text)")
    case True
    with Cons.prems have "kw = k" by (simp add: str_in_sublist)
    with True have "(k # kws) ! 0 = kw \<and> sublist (normalize_text kw) (normalize_text text)
        \<and> (\<forall>j < 0. \<not> sublist (normalize_text ((k # kws) ! j)) (normalize_text text))"
      by simp
    then show ?thesis by (intro exI [of _ 0]) simp
  next
    case False
    with Cons.prems have "keyword_hit text kws = Some kw" by (simp add: str_in_sublist)
    then obtain i where i: "i < length kws" "kws ! i = kw"
      "sublist (normalize_text kw) (normalize_text text)"
      "\<forall>j < i. \<not> sublist (normalize_text (kws ! j)) (normalize_text text)"
      using Cons.IH by blast
    have "\<forall>j < Suc i. \<not> sublist (normalize_text ((k # kws) ! j)) (normalize_text text)"
    proof (intro allI impI)
      fix j assume "j < Suc i"
      then show "\<not> sublist (normalize_text ((k # kws) ! j)) (normalize_text text)"
        using False i(4) by (cases j) simp_all
    qed
    with i show ?thesis by (intro exI [of _ "Suc i"]) simp
  qed
qed

text \<open>
  C4. For every message text and keyword list, the matcher returns no-match exactly when
  no keyword's normalized form is a substring of the normalized text, and otherwise the
  first keyword in list order whose normalized form is one, as it stands in the list
  (not normalized). The examples of the specification are included.
\<close>

theorem keyword_hit_first_match:
  "(keyword_hit text kws = None \<longleftrightarrow>
      (\<forall>kw \<in> set kws. \<not> sublist (normalize_text kw) (normalize_text text)))
   \<and> (\<forall>kw. keyword_hit text kws = Some kw \<longrightarrow>
        (\<exists>i < length kws. kws ! i = kw
           \<and> sublist (normalize_text kw) (normalize_text text)
           \<and> (\<forall>j < i. \<not> sublist (normalize_text (kws ! j)) (normalize_text text))))
   \<and> keyword_hit ''this is an ALERT!'' [''alert'', ''urgent''] = Some ''alert''
   \<and> keyword_hit ''nothing here'' [''alert'', ''urgent''] = None
   \<and> keyword_hit ''urgent alert'' [''alert'', ''urgent''] = Some ''alert''"
proof -
  have a: "keyword_hit ''this is an ALERT!'' [''alert'', ''urgent''] = Some ''alert''"
    by code_simp
  have b: "keyword_hit ''nothing here'' [''alert'', ''urgent''] = None"
    by code_simp
  have c: "keyword_hit ''urgent alert'' [''alert'', ''urgent''] = Some ''alert''"
    by code_simp
  show ?thesis
    using keyword_hit_None [of "text" kws] keyword_hit_Some [of "text" kws] a b c by blast
qed

theorem keyword_hit_first_match_witness:
  "keyword_hit ''An URGENT alert'' [''nope'', ''Urgent'', ''alert''] = Some ''Urgent''
   \<and> (\<exists>i < length [''nope'', ''Urgent'', ''alert'']. [''nope'', ''Urgent'', ''alert''] ! i = ''Urgent''
         \<and> sublist (normalize_text ''Urgent'') (normalize_text ''An URGENT alert'')
         \<and> (\<forall>j < i. \<not> sublist (normalize_text ([''nope'', ''Urgent'', ''alert''] ! j))
                                 (normalize_text ''An URGENT alert'')))
   \<and> keyword_hit ''hello'' [''nope''] = None
   \<and> \<not> sublist (normalize_text ''nope'') (normalize_text ''hello'')"
proof -
  have h: "keyword_hit ''An URGENT alert'' [''nope'', ''Urgent'', ''alert''] = Some ''Urgent''"
    by code_simp
  have n: "keyword_hit ''hello'' [''nope''] = None"
    by code_simp
  note a = keyword_hit_first_match [of "''An URGENT alert''" "[''nope'', ''Urgent'', ''alert'']"]
  note b = keyword_hit_first_match [of "''hello''" "[''nope'']"]
  from a have al: "\<forall>kw. keyword_hit ''An URGENT alert'' [''nope'', ''Urgent'', ''alert''] = Some kw \<longrightarrow>
        (\<exists>i < length [''nope'', ''Urgent'', ''alert'']. [''nope'', ''Urgent'', ''alert''] ! i = kw
           \<and> sublist (normalize_text kw) (normalize_text ''An URGENT alert'')
           \<and> (\<forall>j < i. \<not> sublist (normalize_text ([''nope'', ''Urgent'', ''alert''] ! j))
                                   (normalize_text ''An URGENT alert'')))"
    by (rule conjunct2 [THEN conjunct1])
  have 1: "\<exists>i < length [''nope'', ''Urgent'', ''alert'']. [''nope'', ''Urgent'', ''alert''] ! i = ''Urgent''
         \<and> sublist (normalize_text ''Urgent'') (normalize_text ''An URGENT alert'')
         \<and> (\<forall>j < i. \<not> sublist (normalize_text ([''nope'', ''Urgent'', ''alert''] ! j))
                                 (normalize_text ''An URGENT alert''))"
    by (rule al [THEN spec, THEN mp]) (rule h)
  from b have "(keyword_hit ''hello'' [''nope''] = None) =
      (\<forall>kw \<in> set [''nope'']. \<not> sublist (normalize_text kw) (normalize_text ''hello''))"
    by (rule conjunct1)
  from this n have "\<forall>kw \<in> set [''nope'']. \<not> sublist (normalize_text kw) (normalize_text ''hello'')"
    by (rule iffD1)
  then have 2: "\<not> sublist (normalize_text ''nope'') (normalize_text ''hello'')"
    by simp
  from h 1 n 2 show ?thesis by (intro conjI)
qed

text \<open>
  C10, as claimed: with a keyword that normalizes to the empty string in the list, the
  matcher returns the first such keyword for every text, and every message alerts. Both
  parts fail: a matching keyword listed earlier is returned instead, and the empty
  keyword, once returned, does not pass \<^verbatim>\<open>if hit:\<close>.
\<close>

theorem empty_keyword_counterexample:
  "normalize_text '''' = ''''
   \<and> keyword_hit ''alert'' [''alert'', ''''] = Some ''alert''
   \<and> keyword_hit ''alert'' [''alert'', ''''] \<noteq> Some ''''
   \<and> keyword_hit ''hello'' [''''] = Some ''''
   \<and> alert_item \<lparr>group_name = ''g'', cfg_keywords = ['''']\<rparr> (''A'', ''s'', ''hello'')
       = [Print_Message ''A'' ''s'' ''hello'']"
  by (simp add: normalize_eval alert_item_def)

text \<open>
  C10, amended. If the keyword list contains a keyword that normalizes to the empty
  string, the matcher never returns no-match: it returns the first such keyword unless a
  keyword listed before it matches, and then the first matching one. The message raises
  the alarm whenever the returned keyword is not the empty string.
\<close>

theorem keyword_hit_empty_keyword:
  assumes "k0 \<in> set (cfg_keywords cfg)" and "normalize_text k0 = []"
  shows "keyword_hit text (cfg_keywords cfg) \<noteq> None
   \<and> (\<exists>pre k post. cfg_keywords cfg = pre @ k # post
         \<and> normalize_text k = [] \<and> (\<forall>x \<in> set pre. normalize_text x \<noteq> [])
         \<and> keyword_hit text (cfg_keywords cfg)
             = (case keyword_hit text pre of Some h \<Rightarrow> Some h | None \<Rightarrow> Some k))
   \<and> (\<forall>hit. keyword_hit text (cfg_keywords cfg) = Some hit \<and> hit \<noteq> [] \<longrightarrow>
         alert_item cfg (mid, sender, text)
           = [Print_Message mid sender text, Print_Keyword mid hit, Play_Alarm mid])"
proof -
  from assms have "\<exists>x \<in> set (cfg_keywords cfg). normalize_text x = []" by blast
  then obtain pre k post where sp: "cfg_keywords cfg = pre @ k # post"
    and k: "normalize_text k = []" and pre: "\<forall>x \<in> set pre. normalize_text x \<noteq> []"
    by (auto simp: split_list_first_prop_iff)
  have eq: "keyword_hit text (cfg_keywords cfg)
      = (case keyword_hit text pre of Some h \<Rightarrow> Some h | None \<Rightarrow> Some k)"
    by (simp add: sp keyword_hit_append k str_in_sublist split: option.splits)
  then have ne: "keyword_hit text (cfg_keywords cfg) \<noteq> None"
    by (simp split: option.splits)
  have al: "\<forall>hit. keyword_hit text (cfg_keywords cfg) = Some hit \<and> hit \<noteq> [] \<longrightarrow>
         alert_item cfg (mid, sender, text)
           = [Print_Message mid sender text, Print_Keyword mid hit, Play_Alarm mid]"
    by (simp add: alert_item_def)
  from ne sp k pre eq al show ?thesis by blast
qed

theorem keyword_hit_empty_keyword_witness:
  "keyword_hit ''hello'' [''alert'', ''  ''] = Some ''  ''
   \<and> alert_item \<lparr>group_name = ''g'', cfg_keywords = [''alert'', ''  '']\<rparr> (''A'', ''s'', ''hello'')
       = [Print_Message ''A'' ''s'' ''hello'', Print_Keyword ''A'' ''  '', Play_Alarm ''A'']"
proof -
  have m: "''  '' \<in> set (cfg_keywords \<lparr>group_name = ''g'', cfg_keywords = [''alert'', ''  '']\<rparr>)"
    by simp
  have n: "normalize_text ''  '' = []"
    by (simp add: normalize_eval)
  have h: "keyword_hit ''hello'' [''alert'', ''  ''] = Some ''  ''"
    by (simp add: normalize_eval)
  show ?thesis
    using keyword_hit_empty_keyword [OF m n, of "''hello''" "''A''" "''s''"] h by simp
qed

section \<open>Properties of the message identity and snapshot reader\<close>

text \<open>
  C6. The metadata \<^verbatim>\<open>"[09:10, 1/1/2024] Alice: "\<close> is the format that the comment in
  \<^verbatim>\<open>get_messages\<close> documents, and the sender to be parsed from it is \<^verbatim>\<open>Alice\<close>. The code
  strips the metadata first, which removes the blank after the colon, so the \<^verbatim>\<open>": "\<close>
  it then looks for is gone and the sender stays \<^verbatim>\<open>Unknown\<close>.
\<close>

theorem sender_of_documented_format:
  "strip ''[09:10, 1/1/2024] Alice: '' = ''[09:10, 1/1/2024] Alice:''
   \<and> sender_of (strip ''[09:10, 1/1/2024] Alice: '') = ''Unknown''
   \<and> read_block \<lparr>attr_read = Inr (Some ''[09:10, 1/1/2024] Alice: ''),
                  text_read = Inr (Some ''hi'')\<rparr>
       = Inr (Some (''[09:10, 1/1/2024] Alice:|hi'', ''Unknown'', ''hi''))"
  by (simp add: read_block_def sender_of_def or_empty_def strip_def isspace_def Let_def)

lemma get_messages_loop_acc:
  "get_messages_loop bs acc = acc @ get_messages_loop bs []"
proof (induction bs arbitrary: acc)
  case Nil
  show ?case by simp
next
  case (Cons b bs)
  show ?case
  proof (cases "read_block b")
    case (Inl e)
    then show ?thesis using Cons [of acc] by simp
  next
    case (Inr r)
    show ?thesis
    proof (cases r)
      case None
      with Inr show ?thesis using Cons [of acc] by simp
    next
      case (Some m)
      with Inr show ?thesis using Cons [of "acc @ [m]"] Cons [of "[m]"] by simp
    qed
  qed
qed

lemma get_messages_loop_append:
  "get_messages_loop (bs1 @ bs2) acc = get_messages_loop bs2 (get_messages_loop bs1 acc)"
  by (induction bs1 arbitrary: acc) (simp_all split: sum.splits option.splits)

lemma get_messages_loop_split:
  "get_messages_loop (bs1 @ b # bs2) [] =
     get_messages_loop bs1 [] @ get_messages_loop [b] [] @ get_messages_loop bs2 []"
proof -
  have "get_messages_loop (bs1 @ [b] @ bs2) [] =
        get_messages_loop bs2 (get_messages_loop [b] (get_messages_loop bs1 []))"
    by (simp only: get_messages_loop_append)
  also have "\<dots> = get_messages_loop [b] (get_messages_loop bs1 []) @ get_messages_loop bs2 []"
    by (rule get_messages_loop_acc)
  also have "get_messages_loop [b] (get_messages_loop bs1 []) =
             get_messages_loop bs1 [] @ get_messages_loop [b] []"
    by (rule get_messages_loop_acc)
  finally show ?thesis by simp
qed

lemma read_block_skip:
  "(\<exists>e. attr_read b = Inl e) \<or> (\<exists>e. text_read b = Inl e)
     \<or> (\<exists>t. text_read b = Inr t \<and> strip (or_empty t) = [])
   \<Longrightarrow> get_messages_loop [b] [] = []"
  by (auto simp: read_block_def Let_def split: sum.splits)

lemma read_block_keep:
  "attr_read b = Inr a \<Longrightarrow> text_read b = Inr t \<Longrightarrow> strip (or_empty t) \<noteq> []
   \<Longrightarrow> get_messages_loop [b] [] =
        [(strip (or_empty a) @ ''|'' @ strip (or_empty t), sender_of (strip (or_empty a)),
          strip (or_empty t))]"
  by (simp add: read_block_def Let_def)

text \<open>
  C7. When the enumeration of the elements returns, the snapshot reader returns: the empty
  sequence for no elements; an element whose read of either facet raises, or whose text
  is empty after trimming, contributes nothing and leaves the messages of the elements
  before and after it as they are; any other element contributes its message between
  those of the elements before it and those of the elements after it.
\<close>

theorem get_messages_skips_element:
  "get_messages (Inr []) = Inr []
   \<and> (\<exists>ms. get_messages (Inr bs) = Inr ms)
   \<and> ((\<exists>e. attr_read b = Inl e) \<or> (\<exists>e. text_read b = Inl e)
         \<or> (\<exists>t. text_read b = Inr t \<and> strip (or_empty t) = [])
       \<longrightarrow> get_messages (Inr (bs1 @ b # bs2)) = get_messages (Inr (bs1 @ bs2)))
   \<and> (\<forall>a t ms1 ms2.
         attr_read b = Inr a \<and> text_read b = Inr t \<and> strip (or_empty t) \<noteq> []
         \<and> get_messages (Inr bs1) = Inr ms1 \<and> get_messages (Inr bs2) = Inr ms2
       \<longrightarrow> get_messages (Inr (bs1 @ b # bs2))
             = Inr (ms1 @ (strip (or_empty a) @ ''|'' @ strip (or_empty t),
                           sender_of (strip (or_empty a)), strip (or_empty t)) # ms2))"
proof -
  have 1: "get_messages (Inr []) = Inr []" by (simp add: get_messages_def)
  have 2: "\<exists>ms. get_messages (Inr bs) = Inr ms" by (simp add: get_messages_def)
  have 3: "get_messages (Inr (bs1 @ b # bs2)) = get_messages (Inr (bs1 @ bs2))"
    if "(\<exists>e. attr_read b = Inl e) \<or> (\<exists>e. text_read b = Inl e)
         \<or> (\<exists>t. text_read b = Inr t \<and> strip (or_empty t) = [])"
  proof -
    have "get_messages_loop (bs1 @ bs2) [] = get_messages_loop bs1 [] @ get_messages_loop bs2 []"
      using get_messages_loop_append [of bs1 bs2 "[]"]
        get_messages_loop_acc [of bs2 "get_messages_loop bs1 []"] by simp
    then show ?thesis
      using read_block_skip [OF that]
      by (simp add: get_messages_def get_messages_loop_split)
  qed
  have 4: "get_messages (Inr (bs1 @ b # bs2))
             = Inr (ms1 @ (strip (or_empty a) @ ''|'' @ strip (or_empty t),
                           sender_of (strip (or_empty a)), strip (or_empty t)) # ms2)"
    if "attr_read b = Inr a" "text_read b = Inr t" "strip (or_empty t) \<noteq> []"
      "get_messages (Inr bs1) = Inr ms1" "get_messages (Inr bs2) = Inr ms2" for a t ms1 ms2
    using that(4,5) read_block_keep [OF that(1,2,3)]
    by (simp add: get_messages_def get_messages_loop_split)
  from 1 2 3 4 show ?thesis by blast
qed

theorem get_messages_skips_element_witness:
  "get_messages (Inr [\<lparr>attr_read = Inr (Some ''m1''), text_read = Inr (Some ''one'')\<rparr>,
                      \<lparr>attr_read = Inr (Some ''m2''), text_read = Inl StaleElementReferenceException\<rparr>,
                      \<lparr>attr_read = Inr None, text_read = Inr (Some '' three '')\<rparr>])
     = Inr [(''m1|one'', ''Unknown'', ''one''), (''|three'', ''Unknown'', ''three'')]
   \<and> get_messages (Inr [\<lparr>attr_read = Inr (Some ''m1''), text_read = Inr (Some ''one'')\<rparr>,
                        \<lparr>attr_read = Inr None, text_read = Inr (Some '' three '')\<rparr>])
     = Inr [(''m1|one'', ''Unknown'', ''one''), (''|three'', ''Unknown'', ''three'')]"
proof -
  let ?b1 = "\<lparr>attr_read = Inr (Some ''m1''), text_read = Inr (Some ''one'')\<rparr>"
  let ?b2 = "\<lparr>attr_read = Inr (Some ''m2''), text_read = Inl StaleElementReferenceException\<rparr>"
  let ?b3 = "\<lparr>attr_read = Inr None, text_read = Inr (Some '' three '')\<rparr>"
  have skip: "(\<exists>e. attr_read ?b2 = Inl e) \<or> (\<exists>e. text_read ?b2 = Inl e)
         \<or> (\<exists>t. text_read ?b2 = Inr t \<and> strip (or_empty t) = [])"
    by simp
  have keep: "attr_read ?b3 = Inr None \<and> text_read ?b3 = Inr (Some '' three '')
      \<and> strip (or_empty (Some '' three '')) \<noteq> []
      \<and> get_messages (Inr [?b1]) = Inr [(''m1|one'', ''Unknown'', ''one'')]
      \<and> get_messages (Inr []) = Inr []"
    by (simp add: get_messages_def read_block_def sender_of_def or_empty_def strip_def
        isspace_def Let_def)
  have s: "strip (or_empty (Some '' three '')) = ''three''" "strip (or_empty None) = []"
    "sender_of [] = ''Unknown''"
    by (simp_all add: sender_of_def or_empty_def strip_def isspace_def)
  show ?thesis
    using get_messages_skips_element [of "[]" ?b2 "[?b1]" "[?b3]"]
      get_messages_skips_element [of "[]" ?b3 "[?b1]" "[]"] skip keep
    by (simp add: s)
qed

section \<open>Properties of the conversation locator\<close>

lemma run_steps_events:
  "e \<in> set (fst (run_steps ss)) \<Longrightarrow> \<exists>n. e = Sleep_ms n \<and> Pause n \<in> set ss"
  by (induction ss rule: run_steps.induct) (auto split: prod.splits)

lemma retry_pauses_attempt: "retry_pauses (fst (attempt_result a)) = []"
proof -
  have "\<not> (e = Sleep_ms 600 \<or> e = Sleep_ms 800)" if "e \<in> set (fst (attempt_result a))" for e
    using run_steps_events [OF that [unfolded attempt_result_def]]
    by (auto simp: attempt_steps_def)
  then show ?thesis by (simp add: retry_pauses_def filter_empty_conv)
qed

lemma retry_pauses_append: "retry_pauses (xs @ ys) = retry_pauses xs @ retry_pauses ys"
  by (simp add: retry_pauses_def)

lemma open_loop_result:
  "snd (open_loop env (k # ks)) =
     (if snd (attempt_result (env k)) = None then Inr k else snd (open_loop env ks))"
  by (simp split: prod.splits option.splits exn.splits)

lemma open_loop_pauses:
  "length (retry_pauses (fst (open_loop env (k # ks)))) =
     (if snd (attempt_result (env k)) = None then 0
      else Suc (length (retry_pauses (fst (open_loop env ks)))))"
proof (cases "attempt_result (env k)")
  case (Pair ev r)
  have ev: "retry_pauses ev = []" using retry_pauses_attempt [of "env k"] Pair by simp
  show ?thesis
  proof (cases r)
    case None
    with Pair ev show ?thesis by simp
  next
    case (Some e)
    obtain ev' r' where o: "open_loop env ks = (ev', r')" by (cases "open_loop env ks")
    have "retry_pauses [Print_Warn k x, Sleep_ms 600] = [Sleep_ms 600]"
      "retry_pauses [Print_Warn k x, Sleep_ms 800] = [Sleep_ms 800]" for x
      by (simp_all add: retry_pauses_def)
    with Pair Some o ev show ?thesis
      by (cases e) (simp_all add: retry_pauses_append del: append.simps)
  qed
qed

lemma find_upt_Some:
  "find P [m..<n] = Some k \<longleftrightarrow>
     m \<le> k \<and> k < n \<and> P k \<and> (\<forall>j. m \<le> j \<and> j < k \<longrightarrow> \<not> P j)"
proof (induction "n - m" arbitrary: m)
  case 0
  then show ?case by simp
next
  case (Suc d)
  then have u: "[m..<n] = m # [Suc m..<n]" and mn: "m < n" by (simp_all add: upt_rec)
  from Suc have d: "d = n - Suc m" by simp
  note IH = Suc(1) [OF d]
  show ?case
  proof (cases "P m")
    case True
    have "(m \<le> k \<and> k < n \<and> P k \<and> (\<forall>j. m \<le> j \<and> j < k \<longrightarrow> \<not> P j)) = (m = k)"
    proof
      assume l: "m \<le> k \<and> k < n \<and> P k \<and> (\<forall>j. m \<le> j \<and> j < k \<longrightarrow> \<not> P j)"
      show "m = k"
      proof (rule ccontr)
        assume "m \<noteq> k"
        with l have "m \<le> m \<and> m < k" by simp
        with l True show False by blast
      qed
    next
      assume "m = k"
      with True mn show "m \<le> k \<and> k < n \<and> P k \<and> (\<forall>j. m \<le> j \<and> j < k \<longrightarrow> \<not> P j)"
        by auto
    qed
    with True show ?thesis unfolding u by simp
  next
    case False
    have "(Suc m \<le> k \<and> k < n \<and> P k \<and> (\<forall>j. Suc m \<le> j \<and> j < k \<longrightarrow> \<not> P j))
        = (m \<le> k \<and> k < n \<and> P k \<and> (\<forall>j. m \<le> j \<and> j < k \<longrightarrow> \<not> P j))"
    proof
      assume l: "Suc m \<le> k \<and> k < n \<and> P k \<and> (\<forall>j. Suc m \<le> j \<and> j < k \<longrightarrow> \<not> P j)"
      have "\<not> P j" if "m \<le> j \<and> j < k" for j
      proof (cases "j = m")
        case True
        with False show ?thesis by simp
      next
        case False
        with that have "Suc m \<le> j \<and> j < k" by simp
        with l show ?thesis by blast
      qed
      with l show "m \<le> k \<and> k < n \<and> P k \<and> (\<forall>j. m \<le> j \<and> j < k \<longrightarrow> \<not> P j)"
        by simp
    next
      assume r: "m \<le> k \<and> k < n \<and> P k \<and> (\<forall>j. m \<le> j \<and> j < k \<longrightarrow> \<not> P j)"
      with False have "k \<noteq> m" by blast
      with r have "Suc m \<le> k" by simp
      moreover have "\<not> P j" if "Suc m \<le> j \<and> j < k" for j
      proof -
        from that have "m \<le> j \<and> j < k" by simp
        with r show ?thesis by blast
      qed
      ultimately show "Suc m \<le> k \<and> k < n \<and> P k \<and> (\<forall>j. Suc m \<le> j \<and> j < k \<longrightarrow> \<not> P j)"
        using r by simp
    qed
    with False IH show ?thesis unfolding u by simp
  qed
qed

lemma find_upt_None:
  "find P [m..<n] = None \<longleftrightarrow> (\<forall>j. m \<le> j \<and> j < n \<longrightarrow> \<not> P j)"
  by (auto simp: find_None_iff)

lemma takeWhile_upt_find:
  "length (takeWhile (\<lambda>j. \<not> P j) [m..<n]) =
     (case find P [m..<n] of Some k \<Rightarrow> k - m | None \<Rightarrow> n - m)"
proof (induction "n - m" arbitrary: m)
  case 0
  then show ?case by simp
next
  case (Suc d)
  then have u: "[m..<n] = m # [Suc m..<n]" and mn: "m < n" by (simp_all add: upt_rec)
  from Suc have d: "d = n - Suc m" by simp
  note IH = Suc(1) [OF d]
  show ?case
  proof (cases "P m")
    case True
    then show ?thesis unfolding u by simp
  next
    case False
    show ?thesis
    proof (cases "find P [Suc m..<n]")
      case None
      with False IH mn show ?thesis unfolding u by simp
    next
      case (Some k)
      then have "Suc m \<le> k" by (simp add: find_upt_Some)
      with Some False IH show ?thesis unfolding u by simp
    qed
  qed
qed

lemma open_loop_find:
  "snd (open_loop env ks) =
     (case find (\<lambda>k. snd (attempt_result (env k)) = None) ks of
        Some k \<Rightarrow> Inr k | None \<Rightarrow> Inl RuntimeError)"
  by (induction ks) (simp_all only: open_loop_result find.simps, simp_all)

lemma open_loop_Inr:
  "snd (open_loop env ks) = Inr k \<longleftrightarrow>
     find (\<lambda>k. snd (attempt_result (env k)) = None) ks = Some k"
  by (simp add: open_loop_find split: option.splits)

lemma open_loop_Inl:
  "snd (open_loop env ks) = Inl e \<longleftrightarrow>
     e = RuntimeError \<and> find (\<lambda>k. snd (attempt_result (env k)) = None) ks = None"
  by (auto simp: open_loop_find split: option.splits)

lemma open_loop_takeWhile:
  "length (retry_pauses (fst (open_loop env ks))) =
     length (takeWhile (\<lambda>k. snd (attempt_result (env k)) \<noteq> None) ks)"
  by (induction ks) (simp_all only: open_loop_pauses takeWhile.simps, simp_all add: retry_pauses_def)

lemma open_loop_cong:
  "(\<forall>k \<in> set ks. env k = env' k) \<Longrightarrow> open_loop env ks = open_loop env' ks"
  by (induction ks) simp_all

lemma run_steps_None:
  "snd (run_steps ss) = None \<Longrightarrow> Call x \<in> set ss \<Longrightarrow> x = None"
  by (induction ss rule: run_steps.induct) (auto split: prod.splits)

lemma attempt_composer:
  "snd (attempt_result a) = None \<Longrightarrow> composer_present a = None"
  by (rule run_steps_None [of "attempt_steps a"])
    (simp_all add: attempt_result_def attempt_steps_def)

lemma upt_1_6: "[1..<6] = [1, 2, 3, 4, 5::nat]"
  by code_simp

text \<open>
  C8. The locator makes attempts 1 to 5 in order and looks at no other. It returns at the
  first attempt in which every driver call returns, the wait for the composer being the
  last of them; each failed attempt is followed by one pause. It raises exactly when all
  five attempts fail, and the error is the \<^verbatim>\<open>RuntimeError\<close>; \<^verbatim>\<open>main\<close> then prints the error and
  quits the driver without reading a snapshot or polling. When an attempt succeeds (and
  the probe returns), \<^verbatim>\<open>main\<close> goes on to seeding and polling.
\<close>

theorem open_group_chat_five_attempts:
  "(snd (open_group_chat env) = Inr k \<longleftrightarrow>
      1 \<le> k \<and> k \<le> 5 \<and> snd (attempt_result (env k)) = None
      \<and> (\<forall>j. 1 \<le> j \<and> j < k \<longrightarrow> snd (attempt_result (env j)) \<noteq> None))
   \<and> (snd (open_group_chat env) = Inr k \<longrightarrow> composer_present (env k) = None)
   \<and> (snd (open_group_chat env) = Inl e \<longleftrightarrow>
      e = RuntimeError \<and> (\<forall>j. 1 \<le> j \<and> j \<le> 5 \<longrightarrow> snd (attempt_result (env j)) \<noteq> None))
   \<and> length (retry_pauses (fst (open_group_chat env))) =
       (case snd (open_group_chat env) of Inr k \<Rightarrow> k - 1 | Inl e \<Rightarrow> 5)
   \<and> ((\<forall>j. 1 \<le> j \<and> j \<le> 5 \<longrightarrow> env' j = env j) \<longrightarrow> open_group_chat env' = open_group_chat env)
   \<and> (ready w = None \<and> (\<forall>j. 1 \<le> j \<and> j \<le> 5 \<longrightarrow> snd (attempt_result (attempts w j)) \<noteq> None) \<longrightarrow>
        main cfg w =
          (Stopped, \<lparr>seen_ids = {},
                     trace = Sleep_ms 1500 # fst (open_group_chat (attempts w))
                             @ [Print_Error RuntimeError, Driver_Quit]\<rparr>))
   \<and> (ready w = None \<and> probe w = None \<and> snd (open_group_chat (attempts w)) = Inr k \<longrightarrow>
        main_body cfg w =
          monitor cfg (Sleep_ms 1500 # fst (open_group_chat (attempts w)))
            (seed_first w) (seed_second w) (cycles w))"
proof -
  let ?ok = "\<lambda>env k. snd (attempt_result (env k)) = None"
  have le: "(j < 6) = (j \<le> 5)" for j :: nat by auto
  have 1: "snd (open_group_chat env) = Inr k \<longleftrightarrow>
      1 \<le> k \<and> k \<le> 5 \<and> ?ok env k \<and> (\<forall>j. 1 \<le> j \<and> j < k \<longrightarrow> \<not> ?ok env j)" for env k
    unfolding open_group_chat_def open_loop_Inr find_upt_Some by (simp add: le)
  have 2: "composer_present (env k) = None" if "snd (open_group_chat env) = Inr k"
    using that 1 [of env k] attempt_composer [of "env k"] by simp
  have 3: "snd (open_group_chat env) = Inl e \<longleftrightarrow>
      e = RuntimeError \<and> (\<forall>j. 1 \<le> j \<and> j \<le> 5 \<longrightarrow> \<not> ?ok env j)" for env e
    unfolding open_group_chat_def open_loop_Inl find_upt_None by (simp add: le)
  have 4: "length (retry_pauses (fst (open_group_chat env))) =
       (case snd (open_group_chat env) of Inr k \<Rightarrow> k - 1 | Inl e \<Rightarrow> 5)"
    unfolding open_group_chat_def open_loop_takeWhile
    using takeWhile_upt_find [of "?ok env" 1 6]
    by (simp add: open_loop_find split: option.splits)
  have 5: "open_group_chat env' = open_group_chat env"
    if "\<forall>j. 1 \<le> j \<and> j \<le> 5 \<longrightarrow> env' j = env j"
    unfolding open_group_chat_def using that by (intro open_loop_cong) (simp add: le)
  have 6: "main cfg w =
          (Stopped, \<lparr>seen_ids = {},
                     trace = Sleep_ms 1500 # fst (open_group_chat (attempts w))
                             @ [Print_Error RuntimeError, Driver_Quit]\<rparr>)"
    if "ready w = None \<and> (\<forall>j. 1 \<le> j \<and> j \<le> 5 \<longrightarrow> \<not> ?ok (attempts w) j)"
  proof -
    from that have "snd (open_group_chat (attempts w)) = Inl RuntimeError"
      using 3 [of "attempts w" RuntimeError] by simp
    then obtain ev where "open_group_chat (attempts w) = (ev, Inl RuntimeError)"
      by (cases "open_group_chat (attempts w)") simp
    with that show ?thesis by (simp add: main_def main_body_def)
  qed
  have 7: "main_body cfg w =
          monitor cfg (Sleep_ms 1500 # fst (open_group_chat (attempts w)))
            (seed_first w) (seed_second w) (cycles w)"
    if "ready w = None \<and> probe w = None \<and> snd (open_group_chat (attempts w)) = Inr k"
  proof -
    from that obtain ev where "open_group_chat (attempts w) = (ev, Inr k)"
      by (cases "open_group_chat (attempts w)") simp
    with that show ?thesis by (simp add: main_body_def)
  qed
  from 1 [of env k] 2 3 [of env e] 4 5 6 7 show ?thesis by blast
qed

theorem open_group_chat_five_attempts_witness:
  "snd (open_group_chat
         (\<lambda>k. if k = 1 then ok_attempt\<lparr>chat_click := Some StaleElementReferenceException\<rparr>
               else ok_attempt)) = Inr 2
   \<and> length (retry_pauses (fst (open_group_chat
         (\<lambda>k. if k = 1 then ok_attempt\<lparr>chat_click := Some StaleElementReferenceException\<rparr>
               else ok_attempt)))) = 1
   \<and> main \<lparr>group_name = ''g'', cfg_keywords = [''urgent'']\<rparr>
        \<lparr>ready = None,
         attempts = (\<lambda>k. ok_attempt\<lparr>search_primary := Some TimeoutException,
                                     search_fallback := Some TimeoutException\<rparr>),
         probe = None, seed_first = Inr [], seed_second = Inr [],
         cycles = [\<lparr>hint = ok_scroll, found = Inr []\<rparr>]\<rparr>
     = (Stopped,
        \<lparr>seen_ids = {},
         trace = [Sleep_ms 1500,
                  Print_Warn 1 TimeoutException, Sleep_ms 800,
                  Print_Warn 2 TimeoutException, Sleep_ms 800,
                  Print_Warn 3 TimeoutException, Sleep_ms 800,
                  Print_Warn 4 TimeoutException, Sleep_ms 800,
                  Print_Warn 5 TimeoutException, Sleep_ms 800,
                  Print_Error RuntimeError, Driver_Quit]\<rparr>)"
proof -
  let ?env = "\<lambda>k::nat. if k = 1 then ok_attempt\<lparr>chat_click := Some StaleElementReferenceException\<rparr>
               else ok_attempt"
  let ?bad = "\<lambda>k::nat. ok_attempt\<lparr>search_primary := Some TimeoutException,
                                     search_fallback := Some TimeoutException\<rparr>"
  let ?w = "\<lparr>ready = None, attempts = ?bad,
         probe = None, seed_first = Inr [], seed_second = Inr [],
         cycles = [\<lparr>hint = ok_scroll, found = Inr []\<rparr>]\<rparr>"
  have ok: "attempt_result ok_attempt = ([Sleep_ms 200, Sleep_ms 1000], None)"
    by (simp add: attempt_result_def attempt_steps_def locate_search_def ok_attempt_def)
  have stale: "attempt_result (ok_attempt\<lparr>chat_click := Some StaleElementReferenceException\<rparr>)
      = ([Sleep_ms 200, Sleep_ms 1000], Some StaleElementReferenceException)"
    by (simp add: attempt_result_def attempt_steps_def locate_search_def ok_attempt_def)
  have bad: "attempt_result (ok_attempt\<lparr>search_primary := Some TimeoutException,
                                     search_fallback := Some TimeoutException\<rparr>)
      = ([], Some TimeoutException)"
    by (simp add: attempt_result_def attempt_steps_def locate_search_def ok_attempt_def)
  have h2: "1 \<le> (2::nat) \<and> (2::nat) \<le> 5 \<and> snd (attempt_result (?env 2)) = None
      \<and> (\<forall>j. 1 \<le> j \<and> j < 2 \<longrightarrow> snd (attempt_result (?env j)) \<noteq> None)"
    by (auto simp: ok stale)
  have hw: "ready ?w = None
      \<and> (\<forall>j. 1 \<le> j \<and> j \<le> 5 \<longrightarrow> snd (attempt_result (attempts ?w j)) \<noteq> None)"
    by (simp add: bad)
  have tr: "fst (open_group_chat ?bad) =
      [Print_Warn 1 TimeoutException, Sleep_ms 800,
       Print_Warn 2 TimeoutException, Sleep_ms 800,
       Print_Warn 3 TimeoutException, Sleep_ms 800,
       Print_Warn 4 TimeoutException, Sleep_ms 800,
       Print_Warn 5 TimeoutException, Sleep_ms 800]"
    unfolding open_group_chat_def upt_1_6 by (simp add: bad)
  show ?thesis
    using open_group_chat_five_attempts [of ?env 2 RuntimeError ?env ?w]
      open_group_chat_five_attempts [of ?bad 2 RuntimeError ?bad ?w] h2 hw tr
    by simp
qed

section \<open>Properties of the monitoring loop\<close>

lemma seed_ids: "seed ms seen = seen \<union> fst ` set ms"
  by (induction ms arbitrary: seen) auto

lemma printed_ids_append: "printed_ids (xs @ ys) = printed_ids xs @ printed_ids ys"
  by (induction xs rule: printed_ids.induct) simp_all

lemma alarmed_ids_append: "alarmed_ids (xs @ ys) = alarmed_ids xs @ alarmed_ids ys"
  by (induction xs rule: alarmed_ids.induct) simp_all

lemma printed_ids_alert_item: "printed_ids (alert_item cfg m) = [fst m]"
  by (cases m) (simp add: alert_item_def split: option.splits)

lemma alarmed_ids_alert_item: "subseq (alarmed_ids (alert_item cfg m)) [fst m]"
  by (cases m) (simp add: alert_item_def split: option.splits)

lemma is_log_alert_item: "e \<in> set (alert_item cfg m) \<Longrightarrow> \<not> is_log e"
  by (cases m) (auto simp: alert_item_def split: option.splits if_splits)

lemma process_new_seen: "seen_ids (process_new cfg ms s) = seen_ids s \<union> fst ` set ms"
  by (induction ms arbitrary: s) auto

lemma process_new_trace:
  "trace (process_new cfg ms s) = trace s @ concat (map (alert_item cfg) ms)"
  by (induction ms arbitrary: s) simp_all

lemma printed_ids_items: "printed_ids (concat (map (alert_item cfg) ms)) = map fst ms"
  by (induction ms) (simp_all add: printed_ids_append printed_ids_alert_item)

lemma alarmed_ids_items: "subseq (alarmed_ids (concat (map (alert_item cfg) ms))) (map fst ms)"
proof (induction ms)
  case Nil
  show ?case by simp
next
  case (Cons m ms)
  have "subseq (alarmed_ids (alert_item cfg m) @ alarmed_ids (concat (map (alert_item cfg) ms)))
          ([fst m] @ map fst ms)"
    using alarmed_ids_alert_item Cons by (rule list_emb_append_mono)
  then show ?case by (simp add: alarmed_ids_append)
qed

lemma is_log_items: "e \<in> set (concat (map (alert_item cfg) ms)) \<Longrightarrow> \<not> is_log e"
  by (auto dest: is_log_alert_item)

lemma sleeps_only:
  assumes "\<forall>e \<in> set evs. \<exists>n. e = Sleep_ms n"
  shows "printed_ids evs = [] \<and> alarmed_ids evs = [] \<and> (\<forall>e \<in> set evs. \<not> is_log e)
    \<and> filter (\<lambda>e. e = Sleep_poll) evs = []"
  using assms by (induction evs) auto

lemma scroll_sleeps: "\<forall>e \<in> set (scroll_chat_to_bottom h). \<exists>n. e = Sleep_ms n"
  unfolding scroll_chat_to_bottom_def by (blast dest: run_steps_events)

lemmas scroll_quiet = sleeps_only [OF scroll_sleeps]

lemma new_items_fresh: "fst ` set (new_items seen msgs) \<inter> seen = {}"
  by (auto simp: new_items_def)

lemma new_items_distinct: "distinct (map fst msgs) \<Longrightarrow> distinct (map fst (new_items seen msgs))"
  by (simp add: new_items_def distinct_map_filter)

lemma poll_loop_Cons_Inl:
  "get_messages (found c) = Inl e \<Longrightarrow>
     poll_loop cfg (c # cs) s = (Some e, s\<lparr>trace := trace s @ scroll_chat_to_bottom (hint c)\<rparr>)"
  by (simp add: Let_def)

lemma poll_loop_Cons_Inr:
  "get_messages (found c) = Inr msgs \<Longrightarrow>
     poll_loop cfg (c # cs) s =
       poll_loop cfg cs
         \<lparr>seen_ids = seen_ids s \<union> fst ` set (new_items (seen_ids s) msgs),
          trace = trace s @ scroll_chat_to_bottom (hint c)
                  @ concat (map (alert_item cfg) (new_items (seen_ids s) msgs)) @ [Sleep_poll]\<rparr>"
proof -
  assume g: "get_messages (found c) = Inr msgs"
  let ?s1 = "s\<lparr>trace := trace s @ scroll_chat_to_bottom (hint c)\<rparr>"
  let ?s2 = "process_new cfg (new_items (seen_ids s) msgs) ?s1"
  have "?s2\<lparr>trace := trace ?s2 @ [Sleep_poll]\<rparr> =
        \<lparr>seen_ids = seen_ids s \<union> fst ` set (new_items (seen_ids s) msgs),
          trace = trace s @ scroll_chat_to_bottom (hint c)
                  @ concat (map (alert_item cfg) (new_items (seen_ids s) msgs)) @ [Sleep_poll]\<rparr>"
    by (simp add: process_new_seen process_new_trace)
  with g show ?thesis by (simp add: Let_def)
qed

lemma poll_loop_inv:
  "\<exists>new. trace (snd (poll_loop cfg cs s)) = trace s @ new
     \<and> seen_ids s \<subseteq> seen_ids (snd (poll_loop cfg cs s))
     \<and> set (printed_ids new) \<inter> seen_ids s = {}
     \<and> set (printed_ids new) \<subseteq> seen_ids (snd (poll_loop cfg cs s))
     \<and> subseq (alarmed_ids new) (printed_ids new)
     \<and> (\<forall>e \<in> set new. \<not> is_log e)
     \<and> ((\<forall>c \<in> set cs. \<forall>ms. get_messages (found c) = Inr ms \<longrightarrow> distinct (map fst ms))
          \<longrightarrow> distinct (printed_ids new))"
proof (induction cs arbitrary: s)
  case Nil
  show ?case by simp
next
  case (Cons c cs)
  let ?sc = "scroll_chat_to_bottom (hint c)"
  show ?case
  proof (cases "get_messages (found c)")
    case (Inl e)
    have "trace (snd (poll_loop cfg (c # cs) s)) = trace s @ ?sc"
      and "seen_ids (snd (poll_loop cfg (c # cs) s)) = seen_ids s"
      by (simp_all add: poll_loop_Cons_Inl [OF Inl] del: poll_loop.simps)
    then show ?thesis using scroll_quiet [of "hint c"] by auto
  next
    case (Inr msgs)
    let ?items = "new_items (seen_ids s) msgs"
    let ?A = "concat (map (alert_item cfg) ?items)"
    let ?s3 = "\<lparr>seen_ids = seen_ids s \<union> fst ` set ?items,
                trace = trace s @ ?sc @ ?A @ [Sleep_poll]\<rparr>"
    let ?s' = "snd (poll_loop cfg cs ?s3)"
    have step: "poll_loop cfg (c # cs) s = poll_loop cfg cs ?s3"
      by (rule poll_loop_Cons_Inr [OF Inr])
    from Cons [of ?s3] obtain new' where
      tr: "trace ?s' = trace ?s3 @ new'"
      and mono: "seen_ids ?s3 \<subseteq> seen_ids ?s'"
      and fresh: "set (printed_ids new') \<inter> seen_ids ?s3 = {}"
      and into: "set (printed_ids new') \<subseteq> seen_ids ?s'"
      and sub: "subseq (alarmed_ids new') (printed_ids new')"
      and nolog: "\<forall>e \<in> set new'. \<not> is_log e"
      and dist: "(\<forall>c \<in> set cs. \<forall>ms. get_messages (found c) = Inr ms \<longrightarrow> distinct (map fst ms))
          \<longrightarrow> distinct (printed_ids new')"
      by blast
    let ?new = "?sc @ ?A @ [Sleep_poll] @ new'"
    have p: "printed_ids ?new = map fst ?items @ printed_ids new'"
      using scroll_quiet [of "hint c"] by (simp add: printed_ids_append printed_ids_items)
    have a: "alarmed_ids ?new = alarmed_ids ?A @ alarmed_ids new'"
      using scroll_quiet [of "hint c"] by (simp add: alarmed_ids_append)
    have 1: "trace ?s' = trace s @ ?new" using tr by simp
    have 2: "seen_ids s \<subseteq> seen_ids ?s'" using mono by simp
    have 3: "set (printed_ids ?new) \<inter> seen_ids s = {}"
      unfolding p using fresh new_items_fresh [of "seen_ids s" msgs] by auto
    have 4: "set (printed_ids ?new) \<subseteq> seen_ids ?s'"
      unfolding p using into mono by auto
    have 5: "subseq (alarmed_ids ?new) (printed_ids ?new)"
      unfolding p a using alarmed_ids_items sub by (rule list_emb_append_mono)
    have 6: "\<forall>e \<in> set ?new. \<not> is_log e"
      using nolog scroll_quiet [of "hint c"] is_log_items [of _ cfg ?items] by auto
    have 7: "distinct (printed_ids ?new)"
      if h: "\<forall>c' \<in> set (c # cs). \<forall>ms. get_messages (found c') = Inr ms \<longrightarrow> distinct (map fst ms)"
    proof -
      from h Inr have "distinct (map fst msgs)" by simp
      then have "distinct (map fst ?items)" by (rule new_items_distinct)
      moreover from h dist have "distinct (printed_ids new')" by simp
      moreover have "set (map fst ?items) \<inter> set (printed_ids new') = {}"
        using fresh by auto
      ultimately show ?thesis unfolding p by simp
    qed
    from 1 2 3 4 5 6 7 show ?thesis unfolding step by blast
  qed
qed

lemma emitted_append: "trace s' = trace s @ new \<Longrightarrow> emitted s s' = new"
  by (simp add: emitted_def)

lemma subseq_distinct: "subseq xs ys \<Longrightarrow> distinct ys \<Longrightarrow> distinct xs"
  using subseqs_distinctD [of xs ys] by simp

lemma subseq_subset: "subseq xs ys \<Longrightarrow> set xs \<subseteq> set ys"
  by (auto elim: list_emb_set)

lemma poll_loop_append:
  "poll_loop cfg (cs @ cs') s =
     (case poll_loop cfg cs s of
        (None, s1) \<Rightarrow> poll_loop cfg cs' s1
      | (Some e, s1) \<Rightarrow> (Some e, s1))"
proof (induction cs arbitrary: s)
  case Nil
  show ?case by simp
next
  case (Cons c cs)
  show ?case
  proof (cases "get_messages (found c)")
    case (Inl e)
    show ?thesis
      unfolding append_Cons poll_loop_Cons_Inl [OF Inl] by simp
  next
    case (Inr msgs)
    show ?thesis
      unfolding append_Cons poll_loop_Cons_Inr [OF Inr] by (rule Cons)
  qed
qed

lemma no_poll_sleep_items:
  "filter (\<lambda>e. e = Sleep_poll) (concat (map (alert_item cfg) ms)) = []"
proof -
  have "e \<noteq> Sleep_poll" if "e \<in> set (alert_item cfg m)" for e m
    using that by (cases m) (auto simp: alert_item_def split: option.splits if_splits)
  then show ?thesis by (auto simp: filter_empty_conv)
qed

lemma poll_loop_runs:
  "\<forall>c \<in> set cs. \<exists>bs. found c = Inr bs \<Longrightarrow>
     fst (poll_loop cfg cs s) = None
     \<and> (\<exists>new. trace (snd (poll_loop cfg cs s)) = trace s @ new
           \<and> length (filter (\<lambda>e. e = Sleep_poll) new) = length cs)"
proof (induction cs arbitrary: s)
  case Nil
  show ?case by simp
next
  case (Cons c cs)
  then obtain bs where "found c = Inr bs" by auto
  then have g: "get_messages (found c) = Inr (get_messages_loop bs [])"
    by (simp add: get_messages_def)
  let ?items = "new_items (seen_ids s) (get_messages_loop bs [])"
  let ?s3 = "\<lparr>seen_ids = seen_ids s \<union> fst ` set ?items,
              trace = trace s @ scroll_chat_to_bottom (hint c)
                      @ concat (map (alert_item cfg) ?items) @ [Sleep_poll]\<rparr>"
  from Cons.prems have "\<forall>c \<in> set cs. \<exists>bs. found c = Inr bs" by simp
  from Cons.IH [OF this, of ?s3] obtain new' where
    r: "fst (poll_loop cfg cs ?s3) = None"
    and tr: "trace (snd (poll_loop cfg cs ?s3)) = trace ?s3 @ new'"
    and n: "length (filter (\<lambda>e. e = Sleep_poll) new') = length cs"
    by blast
  let ?new = "scroll_chat_to_bottom (hint c) @ concat (map (alert_item cfg) ?items)
              @ [Sleep_poll] @ new'"
  have "trace (snd (poll_loop cfg cs ?s3)) = trace s @ ?new" using tr by simp
  moreover have "length (filter (\<lambda>e. e = Sleep_poll) ?new) = length (c # cs)"
    using n scroll_quiet [of "hint c"] by (simp add: no_poll_sleep_items)
  ultimately show ?case unfolding poll_loop_Cons_Inr [OF g] using r by blast
qed

lemma open_loop_events:
  "e \<in> set (fst (open_loop env ks)) \<Longrightarrow> (\<exists>n. e = Sleep_ms n) \<or> (\<exists>k x. e = Print_Warn k x)"
proof (induction ks)
  case Nil
  then show ?case by simp
next
  case (Cons k ks)
  obtain ev r where a: "attempt_result (env k) = (ev, r)" by (cases "attempt_result (env k)")
  obtain ev' r' where o: "open_loop env ks = (ev', r')" by (cases "open_loop env ks")
  have ev: "\<exists>n. x = Sleep_ms n" if "x \<in> set ev" for x
    using run_steps_events [of x "attempt_steps (env k)"] that a
    by (auto simp: attempt_result_def)
  from Cons.prems a o have "e \<in> set ev \<or> (\<exists>k x. e = Print_Warn k x) \<or> (\<exists>n. e = Sleep_ms n)
      \<or> e \<in> set ev'"
    by (auto split: option.splits exn.splits)
  with ev Cons.IH o show ?case by auto
qed

lemma startup_quiet:
  "printed_ids (Sleep_ms 1500 # fst (open_group_chat env)) = []
   \<and> alarmed_ids (Sleep_ms 1500 # fst (open_group_chat env)) = []"
proof -
  have "printed_ids evs = [] \<and> alarmed_ids evs = []"
    if "\<forall>e \<in> set evs. (\<exists>n. e = Sleep_ms n) \<or> (\<exists>k x. e = Print_Warn k x)" for evs
    using that by (induction evs) auto
  from this [of "fst (open_group_chat env)"] show ?thesis
    unfolding open_group_chat_def by (auto dest: open_loop_events)
qed

text \<open>
  C2, as claimed: every id is printed and alerted at most once. The new messages of a
  cycle are selected against the set of seen ids before any of them is processed, so an
  id that occurs twice in the snapshot in which it first appears is printed twice and
  raises the alarm twice. Two messages of one sender with the same text in the same
  minute have the same id.
\<close>

theorem alert_once_counterexample:
  "printed_ids (trace (snd (poll_loop sample_cfg
       [\<lparr>hint = ok_scroll,
         found = Inr [element ''[10:00] Bob: '' ''urgent'', element ''[10:00] Bob: '' ''urgent'']\<rparr>]
       start_state)))
     = [''[10:00] Bob:|urgent'', ''[10:00] Bob:|urgent'']
   \<and> alarmed_ids (trace (snd (poll_loop sample_cfg
       [\<lparr>hint = ok_scroll,
         found = Inr [element ''[10:00] Bob: '' ''urgent'', element ''[10:00] Bob: '' ''urgent'']\<rparr>]
       start_state)))
     = [''[10:00] Bob:|urgent'', ''[10:00] Bob:|urgent'']"
proof -
  have g: "get_messages (Inr [element ''[10:00] Bob: '' ''urgent'', element ''[10:00] Bob: '' ''urgent''])
      = Inr [(''[10:00] Bob:|urgent'', ''Unknown'', ''urgent''),
             (''[10:00] Bob:|urgent'', ''Unknown'', ''urgent'')]"
    by (simp add: get_messages_def read_block_def element_def sender_of_def or_empty_def
        strip_def isspace_def Let_def)
  have k: "keyword_hit ''urgent'' [''urgent''] = Some ''urgent''"
    by code_simp
  show ?thesis
    by (simp add: g k Let_def new_items_def alert_item_def sample_cfg_def start_state_def
        scroll_chat_to_bottom_def ok_scroll_def del: keyword_hit.simps)
qed

text \<open>
  C2, amended. The set of seen ids only grows. An id that is in the set when a run of
  poll cycles starts is neither printed nor alerted during these cycles, every id
  printed during them is in the set afterwards, and an alarm is only played for a printed
  message. If no snapshot contains the same id twice, every id is printed at most once and
  alerted at most once over all the cycles. The cycles of a session compose, so this
  holds from every cycle boundary on.
\<close>

theorem seen_ids_monotone:
  "seen_ids s \<subseteq> seen_ids (snd (poll_loop cfg cs s))
   \<and> trace (snd (poll_loop cfg cs s)) = trace s @ emitted s (snd (poll_loop cfg cs s))
   \<and> set (printed_ids (emitted s (snd (poll_loop cfg cs s)))) \<inter> seen_ids s = {}
   \<and> set (alarmed_ids (emitted s (snd (poll_loop cfg cs s)))) \<inter> seen_ids s = {}
   \<and> set (printed_ids (emitted s (snd (poll_loop cfg cs s)))) \<subseteq> seen_ids (snd (poll_loop cfg cs s))
   \<and> subseq (alarmed_ids (emitted s (snd (poll_loop cfg cs s))))
             (printed_ids (emitted s (snd (poll_loop cfg cs s))))
   \<and> ((\<forall>c \<in> set cs. \<forall>ms. get_messages (found c) = Inr ms \<longrightarrow> distinct (map fst ms))
        \<longrightarrow> distinct (printed_ids (emitted s (snd (poll_loop cfg cs s))))
            \<and> distinct (alarmed_ids (emitted s (snd (poll_loop cfg cs s)))))
   \<and> poll_loop cfg (cs @ cs') s =
       (case poll_loop cfg cs s of
          (None, s1) \<Rightarrow> poll_loop cfg cs' s1
        | (Some e, s1) \<Rightarrow> (Some e, s1))"
proof -
  let ?s' = "snd (poll_loop cfg cs s)"
  from poll_loop_inv [of cfg cs s] obtain new where
    tr: "trace ?s' = trace s @ new"
    and mono: "seen_ids s \<subseteq> seen_ids ?s'"
    and fresh: "set (printed_ids new) \<inter> seen_ids s = {}"
    and into: "set (printed_ids new) \<subseteq> seen_ids ?s'"
    and sub: "subseq (alarmed_ids new) (printed_ids new)"
    and dist: "(\<forall>c \<in> set cs. \<forall>ms. get_messages (found c) = Inr ms \<longrightarrow> distinct (map fst ms))
          \<longrightarrow> distinct (printed_ids new)"
    by blast
  have e: "emitted s ?s' = new" using tr by (rule emitted_append)
  have al: "set (alarmed_ids new) \<inter> seen_ids s = {}"
    using subseq_subset [OF sub] fresh by blast
  have d2: "(\<forall>c \<in> set cs. \<forall>ms. get_messages (found c) = Inr ms \<longrightarrow> distinct (map fst ms))
          \<longrightarrow> distinct (printed_ids new) \<and> distinct (alarmed_ids new)"
    using dist subseq_distinct [OF sub] by blast
  show ?thesis
    unfolding e using tr mono fresh al into sub d2 poll_loop_append [of cfg cs cs' s] by blast
qed

theorem seen_ids_monotone_witness:
  "trace (snd (poll_loop sample_cfg
        [\<lparr>hint = ok_scroll, found = Inr [element ''A'' ''hello'']\<rparr>,
         \<lparr>hint = ok_scroll,
          found = Inr [element ''A'' ''hello'', element ''B'' ''this is Urgent'']\<rparr>,
         \<lparr>hint = ok_scroll,
          found = Inr [element ''A'' ''hello'', element ''B'' ''this is Urgent'']\<rparr>]
        start_state))
     = [Sleep_ms 50, Print_Message ''A|hello'' ''Unknown'' ''hello'', Sleep_poll,
        Sleep_ms 50, Print_Message ''B|this is Urgent'' ''Unknown'' ''this is Urgent'',
        Print_Keyword ''B|this is Urgent'' ''urgent'', Play_Alarm ''B|this is Urgent'',
        Sleep_poll, Sleep_ms 50, Sleep_poll]
   \<and> distinct (printed_ids (emitted start_state (snd (poll_loop sample_cfg
        [\<lparr>hint = ok_scroll, found = Inr [element ''A'' ''hello'']\<rparr>,
         \<lparr>hint = ok_scroll,
          found = Inr [element ''A'' ''hello'', element ''B'' ''this is Urgent'']\<rparr>,
         \<lparr>hint = ok_scroll,
          found = Inr [element ''A'' ''hello'', element ''B'' ''this is Urgent'']\<rparr>]
        start_state))))
   \<and> distinct (alarmed_ids (emitted start_state (snd (poll_loop sample_cfg
        [\<lparr>hint = ok_scroll, found = Inr [element ''A'' ''hello'']\<rparr>,
         \<lparr>hint = ok_scroll,
          found = Inr [element ''A'' ''hello'', element ''B'' ''this is Urgent'']\<rparr>,
         \<lparr>hint = ok_scroll,
          found = Inr [element ''A'' ''hello'', element ''B'' ''this is Urgent'']\<rparr>]
        start_state))))"
proof -
  let ?c1 = "\<lparr>hint = ok_scroll, found = Inr [element ''A'' ''hello'']\<rparr>"
  let ?c2 = "\<lparr>hint = ok_scroll,
              found = Inr [element ''A'' ''hello'', element ''B'' ''this is Urgent'']\<rparr>"
  have g1: "get_messages (Inr [element ''A'' ''hello'']) = Inr [(''A|hello'', ''Unknown'', ''hello'')]"
    by (simp add: get_messages_def read_block_def element_def sender_of_def or_empty_def
        strip_def isspace_def Let_def)
  have g2: "get_messages (Inr [element ''A'' ''hello'', element ''B'' ''this is Urgent''])
      = Inr [(''A|hello'', ''Unknown'', ''hello''),
             (''B|this is Urgent'', ''Unknown'', ''this is Urgent'')]"
    by (simp add: get_messages_def read_block_def element_def sender_of_def or_empty_def
        strip_def isspace_def Let_def)
  have k1: "keyword_hit ''hello'' [''urgent''] = None"
    by code_simp
  have k2: "keyword_hit ''this is Urgent'' [''urgent''] = Some ''urgent''"
    by code_simp
  have h: "\<forall>c \<in> set [?c1, ?c2, ?c2].
      \<forall>ms. get_messages (found c) = Inr ms \<longrightarrow> distinct (map fst ms)"
    by (auto simp: g1 g2)
  have t: "trace (snd (poll_loop sample_cfg [?c1, ?c2, ?c2] start_state))
     = [Sleep_ms 50, Print_Message ''A|hello'' ''Unknown'' ''hello'', Sleep_poll,
        Sleep_ms 50, Print_Message ''B|this is Urgent'' ''Unknown'' ''this is Urgent'',
        Print_Keyword ''B|this is Urgent'' ''urgent'', Play_Alarm ''B|this is Urgent'',
        Sleep_poll, Sleep_ms 50, Sleep_poll]"
    by (simp add: g1 g2 k1 k2 Let_def new_items_def alert_item_def sample_cfg_def
        start_state_def scroll_chat_to_bottom_def ok_scroll_def del: keyword_hit.simps)
  show ?thesis
    using seen_ids_monotone [of start_state sample_cfg "[?c1, ?c2, ?c2]" "[]"] h t
    by blast
qed

lemma monitor_Inr:
  "get_messages (Inr bs2) = Inr ms \<Longrightarrow>
     monitor cfg tr (Inr bs1) (Inr bs2) cs = poll_loop cfg cs \<lparr>seen_ids = fst ` set ms, trace = tr\<rparr>"
  by (simp add: monitor_def Let_def seed_ids get_messages_def [of "Inr bs1"])

lemma main_trace:
  "trace (snd (main cfg w)) =
     trace (snd (main_body cfg w))
     @ (case fst (main_body cfg w) of None \<Rightarrow> [] | Some e \<Rightarrow> [Print_Error e, Driver_Quit])"
  and main_seen: "seen_ids (snd (main cfg w)) = seen_ids (snd (main_body cfg w))"
  by (simp_all add: main_def split: prod.splits option.splits)

text \<open>
  C3. When startup reaches the seeding (the driver is ready, the conversation opened, the
  probe returned, both enumerations returned), the loop is entered with the set of seen
  ids equal to the ids of the seed snapshot, the one read at lines 255-256, and with a
  trace that holds no message line and no alarm. In the polling that follows, no message
  of the seed snapshot is printed or alerted, whatever the cycles bring.
\<close>

theorem seeding_is_silent:
  assumes "ready w = None" and "probe w = None"
    and "snd (open_group_chat (attempts w)) = Inr k"
    and "seed_first w = Inr bs1" and "seed_second w = Inr bs2"
    and "get_messages (Inr bs2) = Inr ms"
  shows "main cfg (w\<lparr>cycles := []\<rparr>) =
           (Polling, \<lparr>seen_ids = fst ` set ms,
                      trace = Sleep_ms 1500 # fst (open_group_chat (attempts w))\<rparr>)
    \<and> printed_ids (trace (snd (main cfg (w\<lparr>cycles := []\<rparr>)))) = []
    \<and> alarmed_ids (trace (snd (main cfg (w\<lparr>cycles := []\<rparr>)))) = []
    \<and> fst ` set ms \<subseteq> seen_ids (snd (main cfg w))
    \<and> set (printed_ids (trace (snd (main cfg w)))) \<inter> fst ` set ms = {}
    \<and> set (alarmed_ids (trace (snd (main cfg w)))) \<inter> fst ` set ms = {}"
proof -
  let ?tr = "Sleep_ms 1500 # fst (open_group_chat (attempts w))"
  let ?s0 = "\<lparr>seen_ids = fst ` set ms, trace = ?tr\<rparr>"
  from assms(3) obtain ev where o: "open_group_chat (attempts w) = (ev, Inr k)"
    by (cases "open_group_chat (attempts w)") simp
  have body: "main_body cfg (w\<lparr>cycles := cs\<rparr>) = poll_loop cfg cs ?s0" for cs
    using assms(1,2,4,5) o monitor_Inr [OF assms(6), of cfg ?tr bs1 cs]
    by (simp add: main_body_def)
  have 1: "main cfg (w\<lparr>cycles := []\<rparr>) = (Polling, ?s0)"
    by (simp add: main_def body)
  have q: "printed_ids ?tr = []" "alarmed_ids ?tr = []"
    using startup_quiet [of "attempts w"] by simp_all
  have 2: "printed_ids (trace (snd (main cfg (w\<lparr>cycles := []\<rparr>)))) = []"
    and 3: "alarmed_ids (trace (snd (main cfg (w\<lparr>cycles := []\<rparr>)))) = []"
    unfolding 1 using q by simp_all
  have w: "w\<lparr>cycles := cycles w\<rparr> = w" by simp
  have b: "main_body cfg w = poll_loop cfg (cycles w) ?s0"
    using body [of "cycles w"] unfolding w .
  let ?s' = "snd (poll_loop cfg (cycles w) ?s0)"
  from poll_loop_inv [of cfg "cycles w" ?s0] obtain new where
    tr: "trace ?s' = ?tr @ new"
    and mono: "fst ` set ms \<subseteq> seen_ids ?s'"
    and fresh: "set (printed_ids new) \<inter> fst ` set ms = {}"
    and sub: "subseq (alarmed_ids new) (printed_ids new)"
    by auto
  have 4: "fst ` set ms \<subseteq> seen_ids (snd (main cfg w))"
    unfolding main_seen b using mono .
  have p: "printed_ids (trace (snd (main cfg w))) = printed_ids new"
    unfolding main_trace b tr using q
    by (simp add: printed_ids_append split: option.splits)
  have a: "alarmed_ids (trace (snd (main cfg w))) = alarmed_ids new"
    unfolding main_trace b tr using q
    by (simp add: alarmed_ids_append split: option.splits)
  have 5: "set (printed_ids (trace (snd (main cfg w)))) \<inter> fst ` set ms = {}"
    unfolding p using fresh .
  have 6: "set (alarmed_ids (trace (snd (main cfg w)))) \<inter> fst ` set ms = {}"
    unfolding a using subseq_subset [OF sub] fresh by blast
  from 1 2 3 4 5 6 show ?thesis by blast
qed

theorem seeding_is_silent_witness:
  "main sample_cfg
     \<lparr>ready = None, attempts = (\<lambda>k. ok_attempt), probe = None,
      seed_first = Inr [element ''A'' ''urgent one''],
      seed_second = Inr [element ''A'' ''urgent one'', element ''B'' ''urgent two''],
      cycles = []\<rparr>
   = (Polling, \<lparr>seen_ids = {''A|urgent one'', ''B|urgent two''},
                trace = [Sleep_ms 1500, Sleep_ms 200, Sleep_ms 1000]\<rparr>)
   \<and> set (printed_ids (trace (snd (main sample_cfg
        \<lparr>ready = None, attempts = (\<lambda>k. ok_attempt), probe = None,
         seed_first = Inr [element ''A'' ''urgent one''],
         seed_second = Inr [element ''A'' ''urgent one'', element ''B'' ''urgent two''],
         cycles = [\<lparr>hint = ok_scroll,
                    found = Inr [element ''A'' ''urgent one'', element ''B'' ''urgent two'',
                                 element ''C'' ''urgent three'']\<rparr>]\<rparr>))))
       \<inter> {''A|urgent one'', ''B|urgent two''} = {}"
proof -
  let ?w = "\<lambda>cs. \<lparr>ready = None, attempts = (\<lambda>k. ok_attempt), probe = None,
      seed_first = Inr [element ''A'' ''urgent one''],
      seed_second = Inr [element ''A'' ''urgent one'', element ''B'' ''urgent two''],
      cycles = cs\<rparr>"
  let ?cs = "[\<lparr>hint = ok_scroll,
               found = Inr [element ''A'' ''urgent one'', element ''B'' ''urgent two'',
                            element ''C'' ''urgent three'']\<rparr>]"
  have o: "open_group_chat (\<lambda>k. ok_attempt) = ([Sleep_ms 200, Sleep_ms 1000], Inr 1)"
    unfolding open_group_chat_def upt_1_6
    by (simp add: attempt_result_def attempt_steps_def locate_search_def ok_attempt_def)
  have g: "get_messages (Inr [element ''A'' ''urgent one'', element ''B'' ''urgent two''])
      = Inr [(''A|urgent one'', ''Unknown'', ''urgent one''),
             (''B|urgent two'', ''Unknown'', ''urgent two'')]"
    by (simp add: get_messages_def read_block_def element_def sender_of_def or_empty_def
        strip_def isspace_def Let_def)
  have h: "ready (?w ?cs) = None" "probe (?w ?cs) = None"
    "snd (open_group_chat (attempts (?w ?cs))) = Inr 1"
    "seed_first (?w ?cs) = Inr [element ''A'' ''urgent one'']"
    "seed_second (?w ?cs) = Inr [element ''A'' ''urgent one'', element ''B'' ''urgent two'']"
    by (simp_all add: o)
  show ?thesis
    using seeding_is_silent [OF h g, of sample_cfg] by (simp add: o)
qed

text \<open>
  C9. After a first seeding pass that read a snapshot, whatever it held, the run is the
  run of the seed-once startup on what follows: the same result, the same set of seen ids
  and the same trace, for every outcome of the second enumeration and every sequence of
  cycles.
\<close>

theorem duplicate_seeding_is_seed_once:
  "monitor cfg tr (Inr bs1) snapshot cs = monitor_seed_once cfg tr snapshot cs"
  by (simp add: monitor_def monitor_seed_once_def Let_def seed_ids
      get_messages_def [of "Inr bs1"] split: sum.splits)

text \<open>
  C1, as claimed: an error of a snapshot read is caught within the cycle and the loop
  goes on. The enumeration of the elements is called outside every \<^verbatim>\<open>try\<close> of the cycle:
  its exception leaves the loop, \<^verbatim>\<open>main\<close> prints it and quits the driver, and the next
  cycle, here one with a new message that matches a keyword, never runs. A failing scroll
  hint is swallowed, but nothing is logged for it.
\<close>

theorem read_error_counterexample:
  "main sample_cfg
     \<lparr>ready = None, attempts = (\<lambda>k. ok_attempt), probe = None,
      seed_first = Inr [], seed_second = Inr [],
      cycles = [\<lparr>hint = ok_scroll, found = Inl OtherException\<rparr>,
                \<lparr>hint = ok_scroll, found = Inr [element ''B'' ''urgent'']\<rparr>]\<rparr>
   = (Stopped, \<lparr>seen_ids = {},
                trace = [Sleep_ms 1500, Sleep_ms 200, Sleep_ms 1000, Sleep_ms 50,
                         Print_Error OtherException, Driver_Quit]\<rparr>)
   \<and> poll_loop sample_cfg
        [\<lparr>hint = ok_scroll\<lparr>find_box := Some OtherException\<rparr>, found = Inr []\<rparr>] start_state
     = (None, \<lparr>seen_ids = {}, trace = [Sleep_poll]\<rparr>)"
proof -
  have o: "open_group_chat (\<lambda>k. ok_attempt) = ([Sleep_ms 200, Sleep_ms 1000], Inr 1)"
    unfolding open_group_chat_def upt_1_6
    by (simp add: attempt_result_def attempt_steps_def locate_search_def ok_attempt_def)
  show ?thesis
    by (simp add: main_def main_body_def monitor_def o get_messages_def Let_def
        scroll_chat_to_bottom_def ok_scroll_def start_state_def new_items_def)
qed

text \<open>
  C1, amended. Whatever the scroll hints and the reads of the single elements do, a run of
  cycles whose enumerations all return is completed, cycle after cycle, and the loop is
  still running after it; no cycle of the loop writes a log line. An exception of the
  enumeration itself ends the loop in that cycle, after the scroll hint, and no later cycle
  runs; \<^verbatim>\<open>main\<close> then prints the error once and quits the driver.
\<close>

theorem poll_loop_survives_element_errors:
  "((\<forall>c \<in> set cs. \<exists>bs. found c = Inr bs) \<longrightarrow>
       fst (poll_loop cfg cs s) = None
       \<and> length (filter (\<lambda>e. e = Sleep_poll) (emitted s (snd (poll_loop cfg cs s)))) = length cs)
   \<and> (\<forall>e \<in> set (emitted s (snd (poll_loop cfg cs s))). \<not> is_log e)
   \<and> ((\<forall>c \<in> set cs. \<exists>bs. found c = Inr bs) \<and> found c = Inl x \<longrightarrow>
       poll_loop cfg (cs @ c # cs') s =
         (Some x, (snd (poll_loop cfg cs s))
                    \<lparr>trace := trace (snd (poll_loop cfg cs s)) @ scroll_chat_to_bottom (hint c)\<rparr>))
   \<and> (fst (main_body cfg w) = Some x \<longrightarrow>
       main cfg w =
         (Stopped, (snd (main_body cfg w))
                     \<lparr>trace := trace (snd (main_body cfg w)) @ [Print_Error x, Driver_Quit]\<rparr>))"
proof -
  let ?s' = "snd (poll_loop cfg cs s)"
  have 1: "fst (poll_loop cfg cs s) = None
       \<and> length (filter (\<lambda>e. e = Sleep_poll) (emitted s ?s')) = length cs"
    if h: "\<forall>c \<in> set cs. \<exists>bs. found c = Inr bs"
  proof -
    from poll_loop_runs [OF h, of cfg s] obtain new where
      "fst (poll_loop cfg cs s) = None" "trace ?s' = trace s @ new"
      "length (filter (\<lambda>e. e = Sleep_poll) new) = length cs"
      by blast
    then show ?thesis using emitted_append [of ?s' s new] by simp
  qed
  have 2: "\<forall>e \<in> set (emitted s ?s'). \<not> is_log e"
  proof -
    from poll_loop_inv [of cfg cs s] obtain new where
      "trace ?s' = trace s @ new" "\<forall>e \<in> set new. \<not> is_log e"
      by blast
    then show ?thesis using emitted_append [of ?s' s new] by simp
  qed
  have 3: "poll_loop cfg (cs @ c # cs') s =
         (Some x, ?s'\<lparr>trace := trace ?s' @ scroll_chat_to_bottom (hint c)\<rparr>)"
    if h: "(\<forall>c \<in> set cs. \<exists>bs. found c = Inr bs) \<and> found c = Inl x"
  proof -
    obtain r s1 where p: "poll_loop cfg cs s = (r, s1)" by (cases "poll_loop cfg cs s")
    from h have "fst (poll_loop cfg cs s) = None" using 1 by blast
    with p have r: "r = None" by simp
    from h have g: "get_messages (found c) = Inl x" by (simp add: get_messages_def)
    have "poll_loop cfg (cs @ c # cs') s = poll_loop cfg (c # cs') s1"
      unfolding poll_loop_append p r by (simp del: poll_loop.simps)
    then show ?thesis unfolding poll_loop_Cons_Inl [OF g] p by simp
  qed
  have 4: "main cfg w =
         (Stopped, (snd (main_body cfg w))
                     \<lparr>trace := trace (snd (main_body cfg w)) @ [Print_Error x, Driver_Quit]\<rparr>)"
    if "fst (main_body cfg w) = Some x"
    using that by (cases "main_body cfg w") (simp add: main_def)
  from 1 2 3 4 show ?thesis by blast
qed

theorem poll_loop_survives_element_errors_witness:
  "poll_loop sample_cfg
     [\<lparr>hint = ok_scroll\<lparr>click_box := Some StaleElementReferenceException\<rparr>,
       found = Inr [\<lparr>attr_read = Inl StaleElementReferenceException, text_read = Inr (Some ''x'')\<rparr>,
                    element ''A'' ''hello'']\<rparr>,
      \<lparr>hint = ok_scroll, found = Inl OtherException\<rparr>,
      \<lparr>hint = ok_scroll, found = Inr [element ''B'' ''urgent'']\<rparr>]
     start_state
   = (Some OtherException,
      \<lparr>seen_ids = {''A|hello''},
       trace = [Print_Message ''A|hello'' ''Unknown'' ''hello'', Sleep_poll, Sleep_ms 50]\<rparr>)
   \<and> \<not> is_log (Print_Message ''A|hello'' ''Unknown'' ''hello'') \<and> \<not> is_log Sleep_poll"
proof -
  let ?c1 = "\<lparr>hint = ok_scroll\<lparr>click_box := Some StaleElementReferenceException\<rparr>,
       found = Inr [\<lparr>attr_read = Inl StaleElementReferenceException, text_read = Inr (Some ''x'')\<rparr>,
                    element ''A'' ''hello'']\<rparr>"
  let ?c2 = "\<lparr>hint = ok_scroll, found = Inl OtherException\<rparr>"
  let ?c3 = "\<lparr>hint = ok_scroll, found = Inr [element ''B'' ''urgent'']\<rparr>"
  have g: "get_messages (found ?c1) = Inr [(''A|hello'', ''Unknown'', ''hello'')]"
    by (simp add: get_messages_def read_block_def element_def sender_of_def or_empty_def
        strip_def isspace_def Let_def)
  have k: "keyword_hit ''hello'' [''urgent''] = None"
    by code_simp
  have p: "poll_loop sample_cfg [?c1] start_state
      = (None, \<lparr>seen_ids = {''A|hello''},
                trace = [Print_Message ''A|hello'' ''Unknown'' ''hello'', Sleep_poll]\<rparr>)"
    using g by (simp add: k Let_def new_items_def alert_item_def sample_cfg_def start_state_def
        scroll_chat_to_bottom_def ok_scroll_def del: keyword_hit.simps)
  have h: "(\<forall>c \<in> set [?c1]. \<exists>bs. found c = Inr bs) \<and> found ?c2 = Inl OtherException"
    by simp
  have e: "emitted start_state
        \<lparr>seen_ids = {''A|hello''},
         trace = [Print_Message ''A|hello'' ''Unknown'' ''hello'', Sleep_poll]\<rparr>
      = [Print_Message ''A|hello'' ''Unknown'' ''hello'', Sleep_poll]"
    by (simp add: emitted_def start_state_def)
  show ?thesis
    using poll_loop_survives_element_errors
      [of "[?c1]" sample_cfg start_state ?c2 OtherException "[?c3]"] h
    unfolding p by (simp add: e scroll_chat_to_bottom_def ok_scroll_def)
qed

end
